theory Spec2Isabelle
  imports Complex_Main "HOL-Library.Sublist"
begin

section \<open>JavaScript strings\<close>

text \<open>
  A JavaScript string is a sequence of UTF-16 code units. The header sanitizer tests code
  units against the Latin-1 range, so the 8-bit \<open>char\<close> of HOL cannot carry them: a string
  is a list of code-unit numbers. \<open>js\<close> embeds a HOL literal (all of its characters are
  below 256).
\<close>

type_synonym jsstring = "nat list"

definition js :: "string \<Rightarrow> jsstring" where
  "js s = map of_char s"

text \<open>Character classes of the regular expressions in \<open>archiveService.ts\<close>.\<close>

definition is_digit :: "nat \<Rightarrow> bool" where
  "is_digit c = (48 \<le> c \<and> c \<le> 57)"

definition is_lower :: "nat \<Rightarrow> bool" where
  "is_lower c = (97 \<le> c \<and> c \<le> 122)"

definition is_upper :: "nat \<Rightarrow> bool" where
  "is_upper c = (65 \<le> c \<and> c \<le> 90)"

text \<open>\<open>[0-9A-F]\<close> under the \<open>i\<close> flag.\<close>

definition is_hex :: "nat \<Rightarrow> bool" where
  "is_hex c = (is_digit c \<or> (65 \<le> c \<and> c \<le> 70) \<or> (97 \<le> c \<and> c \<le> 102))"

definition hexval :: "nat \<Rightarrow> nat" where
  "hexval c = (if is_digit c then c - 48 else if 65 \<le> c \<and> c \<le> 70 then c - 55 else c - 87)"

text \<open>\<open>[\r\n]\<close>\<close>

definition is_crlf :: "nat \<Rightarrow> bool" where
  "is_crlf c = (c = 13 \<or> c = 10)"

text \<open>
  \<open>\s\<close>, which is also what \<open>trim\<close> strips: the WhiteSpace and LineTerminator code points
  of ECMAScript.
\<close>

definition is_space :: "nat \<Rightarrow> bool" where
  "is_space c = ((9 \<le> c \<and> c \<le> 13) \<or> c = 32 \<or> c = 160 \<or> c = 5760
     \<or> (8192 \<le> c \<and> c \<le> 8202) \<or> c = 8232 \<or> c = 8233 \<or> c = 8239 \<or> c = 8287
     \<or> c = 12288 \<or> c = 65279)"

text \<open>\<open>[a-z0-9]\<close>, whose complement \<open>generateIdentifier\<close> replaces.\<close>

definition is_slug_char :: "nat \<Rightarrow> bool" where
  "is_slug_char c = (is_lower c \<or> is_digit c)"

text \<open>\<open>[a-zA-Z0-9.-]\<close>, whose complement the upload replaces in the file name.\<close>

definition is_filename_char :: "nat \<Rightarrow> bool" where
  "is_filename_char c = (is_lower c \<or> is_upper c \<or> is_digit c \<or> c = 46 \<or> c = 45)"

text \<open>
  \<open>s.replace(/[C]+/g, r)\<close>: every maximal run of code units of the class \<open>C\<close> becomes \<open>r\<close>.
\<close>

function replace_runs :: "(nat \<Rightarrow> bool) \<Rightarrow> jsstring \<Rightarrow> jsstring \<Rightarrow> jsstring" where
  "replace_runs C r [] = []"
| "replace_runs C r (x # xs) =
     (if C x then r @ replace_runs C r (dropWhile C xs) else x # replace_runs C r xs)"
  by pat_completeness auto
termination
  by (relation "measure (\<lambda>(C, r, xs). length xs)")
     (auto simp: length_dropWhile_le less_Suc_eq_le)

text \<open>\<open>s.trim()\<close>, and the same stripping for another class at both ends.\<close>

definition strip_ends :: "(nat \<Rightarrow> bool) \<Rightarrow> jsstring \<Rightarrow> jsstring" where
  "strip_ends C s = rev (dropWhile C (rev (dropWhile C s)))"

definition trim :: "jsstring \<Rightarrow> jsstring" where
  "trim s = strip_ends is_space s"

text \<open>\<open>s.includes(t)\<close>\<close>

definition js_includes :: "jsstring \<Rightarrow> jsstring \<Rightarrow> bool" where
  "js_includes s t = sublist t s"

text \<open>
  The decimal text of a number, as a template literal prints an integer: \<open>xhr.status\<close> is a
  natural number, \<open>Date.now()\<close> an integer (negative when the clock is set before 1970).
\<close>

function show_nat :: "nat \<Rightarrow> jsstring" where
  "show_nat n = (if n < 10 then [48 + n] else show_nat (n div 10) @ [48 + n mod 10])"
  by pat_completeness auto
termination
  by (relation "measure id") auto

declare show_nat.simps [simp del]

text \<open>Reading a decimal text back, the inverse of \<open>show_nat\<close>.\<close>

definition read_nat :: "jsstring \<Rightarrow> nat" where
  "read_nat ds = foldl (\<lambda>acc d. 10 * acc + (d - 48)) 0 ds"

definition show_int :: "int \<Rightarrow> jsstring" where
  "show_int i = (if i < 0 then 45 # show_nat (nat (- i)) else show_nat (nat i))"


section \<open>Identifier generator\<close>

text \<open>
  \<open>generateIdentifier\<close> of \<open>archiveService.ts\<close>. Its two inputs from the runtime are
  parameters: \<open>toLowerCase\<close>, the case mapping of the JavaScript engine (on non-ASCII text
  it depends on the engine's Unicode tables), and \<open>timestamp\<close>, the value of \<open>Date.now()\<close>.
\<close>

definition cleanTitle :: "(jsstring \<Rightarrow> jsstring) \<Rightarrow> jsstring \<Rightarrow> jsstring" where
  "cleanTitle toLowerCase title =
     strip_ends (\<lambda>c. c = 45)
       (replace_runs (\<lambda>c. \<not> is_slug_char c) (js ''-'') (toLowerCase title))"

definition generateIdentifier :: "(jsstring \<Rightarrow> jsstring) \<Rightarrow> int \<Rightarrow> jsstring \<Rightarrow> jsstring" where
  "generateIdentifier toLowerCase timestamp title =
     js ''notebooklm-archive-'' @ take 50 (cleanTitle toLowerCase title) @ js ''-''
       @ show_int timestamp"

text \<open>The case mapping on ASCII text, where every engine agrees.\<close>

definition ascii_lower :: "jsstring \<Rightarrow> jsstring" where
  "ascii_lower s = map (\<lambda>c. if is_upper c then c + 32 else c) s"


section \<open>Header sanitizer\<close>

text \<open>
  \<open>decodeURIComponent\<close> applied to one match of \<open>/%[0-9A-F]{2}/gi\<close>, whose two hexadecimal
  digits are \<open>a\<close> and \<open>b\<close>. A byte below 128 decodes to its character. A byte with the top
  bit set starts or continues a multi-byte UTF-8 sequence, which the three characters of
  the match cannot complete: the call throws a URIError, here \<open>None\<close>.
\<close>

definition decodeURIComponent :: "nat \<Rightarrow> nat \<Rightarrow> jsstring option" where
  "decodeURIComponent a b =
     (let byte = 16 * hexval a + hexval b in if byte < 128 then Some [byte] else None)"

text \<open>The replacement callback: \<open>try { return decodeURIComponent(match); } catch { return match; }\<close>\<close>

definition decode_match :: "nat \<Rightarrow> nat \<Rightarrow> jsstring" where
  "decode_match a b = (case decodeURIComponent a b of Some s \<Rightarrow> s | None \<Rightarrow> [37, a, b])"

text \<open>\<open>/%[0-9A-F]{2}/i.test(clean)\<close>\<close>

fun has_escape :: "jsstring \<Rightarrow> bool" where
  "has_escape (p # a # b # rest) =
     ((p = 37 \<and> is_hex a \<and> is_hex b) \<or> has_escape (a # b # rest))"
| "has_escape _ = False"

text \<open>
  \<open>clean.replace(/%[0-9A-F]{2}/gi, callback)\<close>: one pass from left to right; after a match
  the scan goes on behind it.
\<close>

fun replace_escapes :: "jsstring \<Rightarrow> jsstring" where
  "replace_escapes (p # a # b # rest) =
     (if p = 37 \<and> is_hex a \<and> is_hex b then decode_match a b @ replace_escapes rest
      else p # replace_escapes (a # b # rest))"
| "replace_escapes s = s"

text \<open>The \<open>while\<close> loop of step 1, with its counter and its \<open>break\<close>.\<close>

function decode_loop :: "nat \<Rightarrow> jsstring \<Rightarrow> jsstring" where
  "decode_loop loopCount clean =
     (if has_escape clean \<and> loopCount < 5
      then (let previous = clean; clean' = replace_escapes clean
            in if clean' = previous then clean' else decode_loop (loopCount + 1) clean')
      else clean)"
  by pat_completeness auto
termination
  by (relation "measure (\<lambda>(loopCount, clean). 5 - loopCount)") auto

declare decode_loop.simps [simp del]

text \<open>Steps 2 to 4, applied to the result of the loop.\<close>

definition clean_whitespace :: "jsstring \<Rightarrow> jsstring" where
  "clean_whitespace clean =
     trim (replace_runs is_space (js '' '')
       (map (\<lambda>c. if 255 < c then 32 else c)
         (replace_runs is_crlf (js '' '') clean)))"

definition sanitizeHeaderValue :: "jsstring \<Rightarrow> jsstring" where
  "sanitizeHeaderValue val =
     (if val = [] then [] else clean_whitespace (decode_loop 0 val))"



section \<open>Credential verifier and upload transport\<close>

record ArchiveKeys =
  accessKey :: jsstring
  secretKey :: jsstring

record ArchiveMetadata =
  title :: jsstring
  description :: jsstring
  tags :: "jsstring list"
  creator :: jsstring

record File =
  name :: jsstring

text \<open>
  How an XMLHttpRequest ends: the \<open>load\<close> event with \<open>xhr.status\<close> and \<open>xhr.responseText\<close>,
  or the \<open>error\<close> event of a network-level failure. A promise settles with a value or is
  rejected with what was thrown: an \<open>Error\<close> with its message in the upload, the exception
  of \<open>setRequestHeader\<close> in the verifier.
\<close>

datatype xhr_event = Load nat jsstring | NetworkError

datatype js_error = Error jsstring

datatype header_exception = HeaderException

datatype ('a, 'e) settled = Resolved 'a | Rejected 'e

text \<open>
  \<open>xhr.setRequestHeader(name, value)\<close> throws when the value cannot be sent: the value is
  converted to a byte string, which fails on a code unit above 0xFF, and after leading and
  trailing tab, LF, CR and space are stripped it may hold no NUL, LF or CR. The upload
  wraps each call in \<open>try\<close>/\<open>catch\<close> for this reason; the verifier does not.
\<close>

definition header_value_ok :: "jsstring \<Rightarrow> bool" where
  "header_value_ok v =
     (list_all (\<lambda>c. c \<le> 255) v
      \<and> list_all (\<lambda>c. c \<noteq> 0 \<and> c \<noteq> 10 \<and> c \<noteq> 13)
           (strip_ends (\<lambda>c. c = 9 \<or> c = 10 \<or> c = 13 \<or> c = 32) v))"

text \<open>
  \<open>verifyCredentials\<close>: the executor of the promise opens the request and sets the
  \<open>Authorization\<close> header (an exception thrown there rejects the promise), then the
  listeners resolve it.
\<close>

definition verifyCredentials ::
  "ArchiveKeys \<Rightarrow> xhr_event \<Rightarrow> (bool, header_exception) settled" where
  "verifyCredentials keys ev =
     (if \<not> header_value_ok (js ''LOW '' @ accessKey keys @ js '':'' @ secretKey keys)
      then Rejected HeaderException
      else (case ev of
              Load status responseText \<Rightarrow>
                if status = 200 then Resolved True else Resolved False
            | NetworkError \<Rightarrow> Resolved False))"

text \<open>
  The object name of the upload: \<open>file.name.split('.').pop() || 'mp3'\<close>, and
  \<open>.replace(/[^a-zA-Z0-9.-]/g, '_').replace(/\.[^.]+$/, '') + '.' + ext\<close>.
\<close>

definition last_segment :: "nat \<Rightarrow> jsstring \<Rightarrow> jsstring" where
  "last_segment sep s = rev (takeWhile (\<lambda>c. c \<noteq> sep) (rev s))"

definition strip_extension :: "jsstring \<Rightarrow> jsstring" where
  "strip_extension s =
     (if 46 \<in> set s \<and> last_segment 46 s \<noteq> []
      then take (length s - length (last_segment 46 s) - 1) s else s)"

definition safeFilename :: "jsstring \<Rightarrow> jsstring" where
  "safeFilename file_name =
     (let ext = (if last_segment 46 file_name = [] then js ''mp3''
                 else last_segment 46 file_name)
      in strip_extension (map (\<lambda>c. if is_filename_char c then c else 95) file_name)
           @ js ''.'' @ ext)"

definition upload_url :: "jsstring \<Rightarrow> File \<Rightarrow> jsstring" where
  "upload_url identifier f =
     js ''https://s3.us.archive.org/'' @ identifier @ js ''/'' @ safeFilename (name f)"

text \<open>The message of the \<open>Error\<close> that the \<open>load\<close> listener rejects with.\<close>

definition upload_failure_message :: "nat \<Rightarrow> jsstring \<Rightarrow> jsstring" where
  "upload_failure_message status responseText =
     js ''Upload failed with status '' @ show_nat status @ js '': '' @ responseText"

text \<open>
  \<open>uploadToInternetArchive\<close>, from the identifier to the settled promise; \<open>toLowerCase\<close> and
  \<open>now\<close> are the runtime inputs of \<open>generateIdentifier\<close>. Every \<open>setRequestHeader\<close> call
  is guarded, so no header rejects the promise.
\<close>

definition uploadToInternetArchive ::
  "(jsstring \<Rightarrow> jsstring) \<Rightarrow> int \<Rightarrow> ArchiveMetadata \<Rightarrow> xhr_event
     \<Rightarrow> (jsstring, js_error) settled" where
  "uploadToInternetArchive toLowerCase now metadata ev =
     (let identifier = generateIdentifier toLowerCase now (title metadata)
      in case ev of
           Load status responseText \<Rightarrow>
             if 200 \<le> status \<and> status < 300
             then Resolved (js ''https://archive.org/details/'' @ identifier)
             else Rejected (Error (upload_failure_message status responseText))
         | NetworkError \<Rightarrow> Rejected (Error (js ''Network error during upload'')))"


section \<open>The application state\<close>

datatype AppStep = UPLOAD | REVIEW | UPLOADING | SUCCESS | ERROR

text \<open>
  The \<open>useState\<close> cells of \<open>App\<close> (\<open>selectedFile\<close> is the cell \<open>file\<close>), and what the verification effect owns: its two intervals
  (\<open>True\<close> while set and not cleared) and the status requests it has issued.
\<close>

record app_state =
  keys :: "ArchiveKeys option"
  keysVerified :: bool
  isSettingsOpen :: bool
  step :: AppStep
  selectedFile :: "File option"
  userContext :: jsstring
  metadata :: ArchiveMetadata
  isGenerating :: bool
  uploadProgress :: real
  successUrl :: "jsstring option"
  errorMsg :: "jsstring option"
  isVerifying :: bool
  elapsedTime :: nat
  pollInterval :: bool
  timerInterval :: bool
  requests :: "jsstring list"

definition initial_metadata :: ArchiveMetadata where
  "initial_metadata =
     \<lparr>title = [], description = [], tags = [], creator = js ''NotebookLM''\<rparr>"

definition initial_state :: app_state where
  "initial_state =
     \<lparr>keys = None, keysVerified = False, isSettingsOpen = False, step = UPLOAD, selectedFile = None,
      userContext = [], metadata = initial_metadata, isGenerating = False,
      uploadProgress = 0, successUrl = None, errorMsg = None, isVerifying = False,
      elapsedTime = 0, pollInterval = False, timerInterval = False, requests = []\<rparr>"

text \<open>\<open>handleUpload\<close>, up to the call of the transport and after its promise settles.\<close>

definition handleUpload_start :: "app_state \<Rightarrow> app_state" where
  "handleUpload_start s =
     (if selectedFile s = None \<or> keys s = None
      then (if keys s = None then s\<lparr>isSettingsOpen := True\<rparr> else s)
      else s\<lparr>step := UPLOADING, uploadProgress := 0\<rparr>)"

definition handleUpload_settled :: "(jsstring, js_error) settled \<Rightarrow> app_state \<Rightarrow> app_state" where
  "handleUpload_settled outcome s =
     (case outcome of
        Resolved url \<Rightarrow> s\<lparr>successUrl := Some url, step := SUCCESS\<rparr>
      | Rejected (Error message) \<Rightarrow>
          s\<lparr>errorMsg := Some (if message = [] then js ''Unknown error occurred''
                                 else message),
            step := ERROR\<rparr>)"

definition handleReset :: "app_state \<Rightarrow> app_state" where
  "handleReset s =
     s\<lparr>selectedFile := None, userContext := [], step := UPLOAD, successUrl := None,
       errorMsg := None, uploadProgress := 0, isVerifying := False, elapsedTime := 0\<rparr>"



section \<open>Completion poller\<close>

text \<open>
  What \<open>response.json()\<close> yields is untyped in the source: a JSON value. Numbers matter
  here only through their truthiness.
\<close>

datatype json =
  JNull | JBool bool | JNum int | JStr jsstring | JArr "json list"
  | JObj "(jsstring \<times> json) list"

text \<open>A JavaScript value read from such data: \<open>None\<close> is \<open>undefined\<close>.\<close>

fun truthy :: "json option \<Rightarrow> bool" where
  "truthy None = False"
| "truthy (Some JNull) = False"
| "truthy (Some (JBool b)) = b"
| "truthy (Some (JNum n)) = (n \<noteq> 0)"
| "truthy (Some (JStr s)) = (s \<noteq> [])"
| "truthy (Some (JArr xs)) = True"
| "truthy (Some (JObj kvs)) = True"

text \<open>
  \<open>v.k\<close> for one of the property names the poller reads (\<open>metadata\<close>, \<open>identifier\<close>,
  \<open>files\<close>, \<open>format\<close>): the outer \<open>None\<close> is the TypeError of reading a property of
  \<open>null\<close> or \<open>undefined\<close>; only an object has such a property. An object is the list of
  its members as the text gives them; of a repeated key \<open>JSON.parse\<close> keeps the last value.
\<close>

fun get_prop :: "json option \<Rightarrow> jsstring \<Rightarrow> json option option" where
  "get_prop None k = None"
| "get_prop (Some JNull) k = None"
| "get_prop (Some (JObj kvs)) k = Some (map_of (rev kvs) k)"
| "get_prop (Some v) k = Some None"

text \<open>
  \<open>files.some((f) => f.format === 'PNG')\<close>: \<open>None\<close> is a TypeError, thrown by the callback
  on a \<open>null\<close> entry that is reached, or by the call when \<open>files\<close> is no array (then
  \<open>files.some\<close> is no function).
\<close>

fun some_png :: "json list \<Rightarrow> bool option" where
  "some_png [] = Some False"
| "some_png (f # fs) =
     (case get_prop (Some f) (js ''format'') of
        None \<Rightarrow> None
      | Some v \<Rightarrow> if v = Some (JStr (js ''PNG'')) then Some True else some_png fs)"

fun files_some :: "json option \<Rightarrow> bool option" where
  "files_some (Some (JArr fs)) = some_png fs"
| "files_some v = None"

text \<open>
  How one \<open>fetch\<close> of the metadata endpoint ends: the promise rejects, or it yields a
  response with its \<open>ok\<close> flag; the body is \<open>None\<close> when \<open>response.json()\<close> rejects.
\<close>

datatype fetch_outcome = FetchRejected | Response bool "json option"

text \<open>
  The two conditions of \<open>checkStatus\<close>, with their short-circuit evaluation: \<open>None\<close> is
  an exception thrown while evaluating.
  \<open>data && data.metadata && data.metadata.identifier === identifier\<close> and
  \<open>data.files && data.files.some(...)\<close>.
\<close>

definition metadata_matches :: "jsstring \<Rightarrow> json \<Rightarrow> bool option" where
  "metadata_matches identifier data =
     (if \<not> truthy (Some data) then Some False
      else (case get_prop (Some data) (js ''metadata'') of
              None \<Rightarrow> None
            | Some md \<Rightarrow>
                if \<not> truthy md then Some False
                else (case get_prop md (js ''identifier'') of
                        None \<Rightarrow> None
                      | Some i \<Rightarrow> Some (i = Some (JStr identifier)))))"

definition hasWaveform :: "json \<Rightarrow> bool option" where
  "hasWaveform data =
     (case get_prop (Some data) (js ''files'') of
        None \<Rightarrow> None
      | Some files \<Rightarrow> if \<not> truthy files then Some False else files_some files)"

text \<open>
  The body of \<open>checkStatus\<close> behind the \<open>fetch\<close>: \<open>True\<close> when control reaches
  \<open>setIsVerifying(false)\<close>. Every exception ends in the \<open>catch\<close>, which only logs.
\<close>

definition check_passes :: "jsstring \<Rightarrow> fetch_outcome \<Rightarrow> bool" where
  "check_passes identifier outcome =
     (case outcome of
        FetchRejected \<Rightarrow> False
      | Response ok body \<Rightarrow>
          if ok then
            (case body of
               None \<Rightarrow> False
             | Some data \<Rightarrow>
                 (case metadata_matches identifier data of
                    None \<Rightarrow> False
                  | Some matches \<Rightarrow>
                      if matches
                      then (case hasWaveform data of None \<Rightarrow> False | Some w \<Rightarrow> w)
                      else False))
          else False)"

definition checkStatus :: "jsstring \<Rightarrow> fetch_outcome \<Rightarrow> app_state \<Rightarrow> app_state" where
  "checkStatus identifier outcome s =
     (if check_passes identifier outcome
      then s\<lparr>isVerifying := False, pollInterval := False, timerInterval := False\<rparr>
      else s)"

text \<open>The request of one check; \<open>now\<close> is \<open>Date.now()\<close>.\<close>

definition status_request :: "jsstring \<Rightarrow> int \<Rightarrow> jsstring" where
  "status_request identifier now =
     js ''https://archive.org/metadata/'' @ identifier @ js ''?t='' @ show_int now"

text \<open>
  The verification effect, run by React when \<open>step\<close> or \<open>successUrl\<close> has changed: first
  the cleanup of the previous run, then the body.
\<close>

definition verification_effect :: "int \<Rightarrow> app_state \<Rightarrow> app_state" where
  "verification_effect now s =
     (let s0 = s\<lparr>pollInterval := False, timerInterval := False\<rparr>
      in case successUrl s of
           None \<Rightarrow> s0
         | Some url \<Rightarrow>
             if step s = SUCCESS \<and> url \<noteq> []
             then (let s1 = s0\<lparr>isVerifying := True, elapsedTime := 0\<rparr>;
                       identifier = last_segment 47 url
                   in if identifier \<noteq> []
                      then s1\<lparr>timerInterval := True,
                              requests := requests s1 @ [status_request identifier now],
                              pollInterval := True\<rparr>
                      else s1)
             else s0)"

text \<open>
  A render after an event handler has produced \<open>s'\<close> from \<open>s\<close>: the effect runs only when
  one of its dependencies differs.
\<close>

definition rerender :: "int \<Rightarrow> app_state \<Rightarrow> app_state \<Rightarrow> app_state" where
  "rerender now s s' =
     (if step s' = step s \<and> successUrl s' = successUrl s then s'
      else verification_effect now s')"

text \<open>The two interval callbacks; a cleared interval fires no more.\<close>

definition timer_tick :: "app_state \<Rightarrow> app_state" where
  "timer_tick s = (if timerInterval s then s\<lparr>elapsedTime := elapsedTime s + 1\<rparr> else s)"

definition poll_tick :: "int \<Rightarrow> app_state \<Rightarrow> app_state" where
  "poll_tick now s =
     (case successUrl s of
        None \<Rightarrow> s
      | Some url \<Rightarrow>
          if pollInterval s
          then s\<lparr>requests := requests s @ [status_request (last_segment 47 url) now]\<rparr>
          else s)"

text \<open>
  The user's actions on the success page: the skip button (\<open>setIsVerifying(false)\<close>) and
  the reset button (\<open>handleReset\<close>), each followed by the render.
\<close>

definition click_skip :: "int \<Rightarrow> app_state \<Rightarrow> app_state" where
  "click_skip now s = rerender now s (s\<lparr>isVerifying := False\<rparr>)"

definition click_reset :: "int \<Rightarrow> app_state \<Rightarrow> app_state" where
  "click_reset now s = rerender now s (handleReset s)"

definition upload_finished ::
  "int \<Rightarrow> (jsstring, js_error) settled \<Rightarrow> app_state \<Rightarrow> app_state" where
  "upload_finished now outcome s = rerender now s (handleUpload_settled outcome s)"


text \<open>
  \<open>handleFileSelect\<close>, before and after the metadata generator answers; the generator
  itself is outside this development, its answer is the argument.
\<close>

definition handleFileSelect_start :: "File \<Rightarrow> app_state \<Rightarrow> app_state" where
  "handleFileSelect_start f s =
     s\<lparr>selectedFile := Some f, step := REVIEW, isGenerating := True\<rparr>"

definition handleFileSelect_generated :: "ArchiveMetadata \<Rightarrow> app_state \<Rightarrow> app_state" where
  "handleFileSelect_generated generated s = s\<lparr>metadata := generated, isGenerating := False\<rparr>"


section \<open>A session of the application\<close>

text \<open>
  A concrete run, used where a property is evaluated: credentials are present, a file is
  chosen, its metadata arrive, the upload succeeds and the success page has been shown for
  21 seconds.
\<close>

definition example_metadata :: ArchiveMetadata where
  "example_metadata =
     \<lparr>title = js ''Talk'', description = js ''A talk'', tags = [js ''audio''],
      creator = js ''NotebookLM''\<rparr>"

definition example_url :: jsstring where
  "example_url = js ''https://archive.org/details/notebooklm-archive-talk-7''"

definition success_page :: app_state where
  "success_page =
     upload_finished 8 (Resolved example_url)
       (handleUpload_start
         (handleFileSelect_generated example_metadata
           (handleFileSelect_start \<lparr>name = js ''talk.mp3''\<rparr>
             (initial_state\<lparr>keys := Some \<lparr>accessKey = js ''a'', secretKey = js ''s''\<rparr>\<rparr>))))"

definition waiting_21s :: app_state where
  "waiting_21s = (timer_tick ^^ 21) success_page"


section \<open>Reading a status response\<close>

text \<open>
  The vocabulary of the poller's contract: the value of a property of a JSON object
  (\<open>None\<close> when the value is no object or has no such property; the last value of a
  repeated key), the identifier the response declares for itself, its file listing and the
  format an entry declares.
\<close>

definition field :: "json \<Rightarrow> jsstring \<Rightarrow> json option" where
  "field v k = (case v of JObj kvs \<Rightarrow> map_of (rev kvs) k | _ \<Rightarrow> None)"

definition declared_identifier :: "json \<Rightarrow> json option" where
  "declared_identifier data =
     (case field data (js ''metadata'') of None \<Rightarrow> None | Some md \<Rightarrow> field md (js ''identifier''))"

definition file_listing :: "json \<Rightarrow> json list" where
  "file_listing data = (case field data (js ''files'') of Some (JArr fs) \<Rightarrow> fs | _ \<Rightarrow> [])"

definition declared_format :: "json \<Rightarrow> json option" where
  "declared_format f = field f (js ''format'')"

text \<open>A response as the metadata endpoint gives it for the session's item.\<close>

definition example_response :: json where
  "example_response =
     JObj [(js ''metadata'', JObj [(js ''identifier'', JStr (js ''notebooklm-archive-talk-7''))]),
           (js ''files'', JArr [JObj [(js ''name'', JStr (js ''talk.mp3'')),
                                      (js ''format'', JStr (js ''VBR MP3''))],
                                JObj [(js ''name'', JStr (js ''talk.png'')),
                                      (js ''format'', JStr (js ''PNG''))]])]"

text \<open>The same item with a \<open>null\<close> entry in the listing, before and behind the PNG entry.\<close>

definition null_first_response :: json where
  "null_first_response =
     JObj [(js ''metadata'', JObj [(js ''identifier'', JStr (js ''notebooklm-archive-talk-7''))]),
           (js ''files'', JArr [JNull, JObj [(js ''format'', JStr (js ''PNG''))]])]"

definition null_last_response :: json where
  "null_last_response =
     JObj [(js ''metadata'', JObj [(js ''identifier'', JStr (js ''notebooklm-archive-talk-7''))]),
           (js ''files'', JArr [JObj [(js ''format'', JStr (js ''PNG''))], JNull])]"


section \<open>Resolved encoding\<close>

text \<open>
  A specification predicate, not code: the string still holds a percent escape that
  \<open>decodeURIComponent\<close> would decode.
\<close>

definition decodable :: "jsstring \<Rightarrow> bool" where
  "decodable s = (\<exists>a b. is_hex a \<and> is_hex b \<and> decodeURIComponent a b \<noteq> None \<and> sublist [37, a, b] s)"


section \<open>Facts about the string operations\<close>

lemma list_all_replace_runs:
  "list_all Q r \<Longrightarrow> (\<And>x. \<not> C x \<Longrightarrow> Q x) \<Longrightarrow> list_all Q (replace_runs C r xs)"
  by (induction C r xs rule: replace_runs.induct) auto

lemma filter_dropWhile_neg: "filter (\<lambda>x. \<not> C x) (dropWhile C xs) = filter (\<lambda>x. \<not> C x) xs"
  by (induction xs) auto

lemma filter_replace_runs:
  "list_all C r \<Longrightarrow> filter (\<lambda>x. \<not> C x) (replace_runs C r xs) = filter (\<lambda>x. \<not> C x) xs"
proof (induction C r xs rule: replace_runs.induct)
  case (1 C r)
  then show ?case by simp
next
  case (2 C r x xs)
  have r: "filter (\<lambda>x. \<not> C x) r = []"
    using "2.prems" by (induction r) auto
  show ?case
    using 2 r by (auto simp: filter_dropWhile_neg)
qed

lemma set_strip_ends: "set (strip_ends C s) \<subseteq> set s"
proof -
  have "set (dropWhile C (rev (dropWhile C s))) \<subseteq> set (rev (dropWhile C s))"
    by (auto dest: set_dropWhileD)
  moreover have "set (dropWhile C s) \<subseteq> set s"
    by (auto dest: set_dropWhileD)
  ultimately show ?thesis by (auto simp: strip_ends_def)
qed

lemma filter_strip_ends:
  "filter (\<lambda>x. \<not> C x) (strip_ends C s) = filter (\<lambda>x. \<not> C x) s"
proof -
  have "filter (\<lambda>x. \<not> C x) (strip_ends C s)
        = rev (filter (\<lambda>x. \<not> C x) (dropWhile C (rev (dropWhile C s))))"
    by (simp add: strip_ends_def rev_filter)
  also have "\<dots> = rev (filter (\<lambda>x. \<not> C x) (rev (dropWhile C s)))"
    by (simp only: filter_dropWhile_neg)
  also have "\<dots> = filter (\<lambda>x. \<not> C x) (dropWhile C s)"
    by (simp add: rev_filter)
  finally show ?thesis by (simp add: filter_dropWhile_neg)
qed

lemma strip_ends_Cons_keep:
  "\<not> C x \<Longrightarrow> rev (dropWhile C (rev (x # zs))) = x # rev (dropWhile C (rev zs))"
  by (simp add: dropWhile_append)

lemma strip_ends_hd: "strip_ends C s \<noteq> [] \<Longrightarrow> \<not> C (hd (strip_ends C s))"
proof -
  assume ne: "strip_ends C s \<noteq> []"
  then obtain x zs where xz: "dropWhile C s = x # zs"
    by (cases "dropWhile C s") (simp_all add: strip_ends_def)
  then have "\<not> C x" using hd_dropWhile[of C s] by auto
  then show ?thesis
    by (simp add: strip_ends_def xz strip_ends_Cons_keep del: rev.simps)
qed

lemma strip_ends_last: "strip_ends C s \<noteq> [] \<Longrightarrow> \<not> C (last (strip_ends C s))"
proof -
  assume ne: "strip_ends C s \<noteq> []"
  then have d: "dropWhile C (rev (dropWhile C s)) \<noteq> []" by (auto simp: strip_ends_def)
  have "last (strip_ends C s) = hd (dropWhile C (rev (dropWhile C s)))"
    using d by (simp add: strip_ends_def last_rev)
  then show ?thesis using hd_dropWhile[OF d] by simp
qed

lemma show_nat_nonempty: "show_nat n \<noteq> []"
  by (subst show_nat.simps) auto

lemma show_nat_digits: "list_all is_digit (show_nat n)"
proof (induction n rule: show_nat.induct)
  case (1 n)
  show ?case
  proof (cases "n < 10")
    case True
    then show ?thesis by (subst show_nat.simps) (simp add: is_digit_def)
  next
    case False
    have "n mod 10 < 10" by simp
    then have "is_digit (48 + n mod 10)" unfolding is_digit_def by linarith
    then show ?thesis using False 1 by (subst show_nat.simps) simp
  qed
qed

lemma read_show_nat: "read_nat (show_nat n) = n"
proof (induction n rule: show_nat.induct)
  case (1 n)
  show ?case
  proof (cases "n < 10")
    case True
    then show ?thesis by (subst show_nat.simps) (simp add: read_nat_def)
  next
    case False
    then have "read_nat (show_nat (n div 10)) = n div 10" using 1 by simp
    then show ?thesis using False
      by (subst show_nat.simps) (simp add: read_nat_def)
  qed
qed

lemma show_nat_inj: "show_nat a = show_nat b \<Longrightarrow> a = b"
  by (metis read_show_nat)

lemma show_nat_hd_digit: "is_digit (hd (show_nat n))"
  using show_nat_digits[of n] show_nat_nonempty[of n]
  by (cases "show_nat n") auto

lemma show_nat_hd_not_minus: "hd (show_nat n) \<noteq> 45"
  using show_nat_hd_digit[of n] by (simp add: is_digit_def)

lemma show_int_inj: "show_int a = show_int b \<Longrightarrow> a = b"
proof -
  assume eq: "show_int a = show_int b"
  have nd: "\<And>n. hd (show_nat n) \<noteq> 45"
    by (rule show_nat_hd_not_minus)
  have ne: "\<And>n. show_nat n \<noteq> []" by (rule show_nat_nonempty)
  consider "a < 0" "b < 0" | "a < 0" "\<not> b < 0" | "\<not> a < 0" "b < 0" | "\<not> a < 0" "\<not> b < 0"
    by blast
  then show ?thesis
  proof cases
    case 1
    then have "show_nat (nat (- a)) = show_nat (nat (- b))" using eq by (simp add: show_int_def)
    then have "nat (- a) = nat (- b)" by (rule show_nat_inj)
    then show ?thesis using 1 by simp
  next
    case 2
    then have "45 # show_nat (nat (- a)) = show_nat (nat b)" using eq by (simp add: show_int_def)
    then have "hd (show_nat (nat b)) = 45" by (metis list.sel(1))
    then show ?thesis using nd by blast
  next
    case 3
    then have "show_nat (nat a) = 45 # show_nat (nat (- b))" using eq by (simp add: show_int_def)
    then have "hd (show_nat (nat a)) = 45" by (metis list.sel(1))
    then show ?thesis using nd by blast
  next
    case 4
    then have "show_nat (nat a) = show_nat (nat b)" using eq by (simp add: show_int_def)
    then have "nat a = nat b" by (rule show_nat_inj)
    then show ?thesis using 4 by simp
  qed
qed

lemma show_int_chars: "list_all (\<lambda>c. is_digit c \<or> c = 45) (show_int i)"
  using show_nat_digits by (auto simp: show_int_def list_all_iff)



lemma replace_runs_hd:
  "xs = [] \<or> \<not> C (hd xs) \<Longrightarrow> replace_runs C r xs = [] \<or> hd (replace_runs C r xs) = hd xs \<and> xs \<noteq> []"
  by (cases xs) auto

lemma dropWhile_hd_cases: "dropWhile C xs = [] \<or> \<not> C (hd (dropWhile C xs))"
  using hd_dropWhile[of C xs] by blast

lemma replace_runs_no_double:
  "C h \<Longrightarrow> \<not> sublist [h, h] (replace_runs C [h] xs)"
proof (induction C "[h]" xs rule: replace_runs.induct)
  case (1 C)
  then show ?case by simp
next
  case (2 C x xs)
  show ?case
  proof (cases "C x")
    case True
    let ?ys = "replace_runs C [h] (dropWhile C xs)"
    have ih: "\<not> sublist [h, h] ?ys" using 2 True by simp
    have "?ys = [] \<or> hd ?ys = hd (dropWhile C xs) \<and> dropWhile C xs \<noteq> []"
      by (rule replace_runs_hd) (rule dropWhile_hd_cases)
    then have "\<not> prefix [h] ?ys"
      using hd_dropWhile[of C xs] \<open>C h\<close> by (cases ?ys) auto
    then show ?thesis using ih True by (simp add: sublist_Cons_right)
  next
    case False
    then have "x \<noteq> h" using \<open>C h\<close> by auto
    then show ?thesis using 2 False by (simp add: sublist_Cons_right)
  qed
qed


lemma sublist_strip_ends: "sublist (strip_ends C s) s"
proof -
  let ?d = "dropWhile C s"
  have "rev (rev ?d) = rev (takeWhile C (rev ?d) @ dropWhile C (rev ?d))"
    by (simp only: takeWhile_dropWhile_id)
  then have d: "?d = strip_ends C s @ rev (takeWhile C (rev ?d))"
    by (simp only: rev_append rev_rev_ident strip_ends_def)
  have "s = takeWhile C s @ ?d" by simp
  then have "s = takeWhile C s @ strip_ends C s @ rev (takeWhile C (rev ?d))"
    using d by simp
  then show ?thesis unfolding sublist_def by blast
qed

lemma js_hyphen: "js ''-'' = [45]"
  by (simp add: js_def)

lemma cleanTitle_chars:
  "list_all (\<lambda>c. is_lower c \<or> is_digit c \<or> c = 45) (cleanTitle lc ttl)"
proof -
  have "list_all (\<lambda>c. is_lower c \<or> is_digit c \<or> c = 45)
          (replace_runs (\<lambda>c. \<not> is_slug_char c) (js ''-'') (lc ttl))"
    by (rule list_all_replace_runs) (auto simp: js_hyphen is_slug_char_def)
  then show ?thesis
    using set_strip_ends[of "\<lambda>c. c = 45"]
    unfolding cleanTitle_def list_all_iff by blast
qed

lemma hyphen_not_slug: "\<not> is_slug_char 45"
  by (simp add: is_slug_char_def is_lower_def is_digit_def)

lemma cleanTitle_keeps_slug_chars:
  "filter is_slug_char (cleanTitle lc ttl) = filter is_slug_char (lc ttl)"
proof -
  let ?r = "replace_runs (\<lambda>c. \<not> is_slug_char c) (js ''-'') (lc ttl)"
  have sub: "sublist (cleanTitle lc ttl) ?r"
    unfolding cleanTitle_def by (rule sublist_strip_ends)
  have "filter (\<lambda>c. \<not> c = 45) (cleanTitle lc ttl) = filter (\<lambda>c. \<not> c = 45) ?r"
    unfolding cleanTitle_def by (rule filter_strip_ends)
  then have "filter is_slug_char (filter (\<lambda>c. \<not> c = 45) (cleanTitle lc ttl))
           = filter is_slug_char (filter (\<lambda>c. \<not> c = 45) ?r)" by simp
  moreover have "\<And>xs. filter is_slug_char (filter (\<lambda>c. \<not> c = 45) xs) = filter is_slug_char xs"
    using hyphen_not_slug by (auto intro: filter_cong)
  ultimately have "filter is_slug_char (cleanTitle lc ttl) = filter is_slug_char ?r" by simp
  moreover have "filter (\<lambda>c. \<not> \<not> is_slug_char c) ?r = filter (\<lambda>c. \<not> \<not> is_slug_char c) (lc ttl)"
    by (rule filter_replace_runs) (simp add: js_hyphen hyphen_not_slug)
  ultimately show ?thesis by simp
qed

lemma cleanTitle_no_double_hyphen: "\<not> sublist [45, 45] (cleanTitle lc ttl)"
proof
  assume a: "sublist [45, 45] (cleanTitle lc ttl)"
  have "sublist (cleanTitle lc ttl)
          (replace_runs (\<lambda>c. \<not> is_slug_char c) [45] (lc ttl))"
    unfolding cleanTitle_def js_hyphen by (rule sublist_strip_ends)
  with a have "sublist [45, 45] (replace_runs (\<lambda>c. \<not> is_slug_char c) [45] (lc ttl))"
    by (rule sublist_order.order_trans)
  moreover have "\<not> sublist [45, 45] (replace_runs (\<lambda>c. \<not> is_slug_char c) [45] (lc ttl))"
    by (rule replace_runs_no_double) (rule hyphen_not_slug)
  ultimately show False by blast
qed

lemma cleanTitle_ends:
  "cleanTitle lc ttl \<noteq> [] \<Longrightarrow>
     hd (cleanTitle lc ttl) \<noteq> 45 \<and> last (cleanTitle lc ttl) \<noteq> 45"
  unfolding cleanTitle_def
  using strip_ends_hd[of "\<lambda>c. c = 45"] strip_ends_last[of "\<lambda>c. c = 45"] by blast

lemma generateIdentifier_distinct:
  "t1 \<noteq> t2 \<Longrightarrow> generateIdentifier lc t1 ttl \<noteq> generateIdentifier lc t2 ttl"
  unfolding generateIdentifier_def using show_int_inj by auto

lemma show_int_nonempty: "show_int i \<noteq> []"
  by (simp add: show_int_def show_nat_nonempty)


section \<open>The identifier generator: claim C6\<close>

text \<open>
  Claim C6. For every title, also the empty one, and with any case mapping of the engine,
  the identifier is non-empty and starts with the namespace tag; what follows the tag is
  non-empty and consists of lowercase letters, digits and hyphens only. It is the cleaned
  title cut to 50 characters, a hyphen and the decimal time stamp, where the cleaned title
  keeps the letters and digits of the lowercased title in their order, has every run of
  other characters as exactly one hyphen (never two in a row) and no hyphen at either
  end. Two calls with the same title at different clock values give different
  identifiers.
\<close>

theorem generateIdentifier_valid:
  "generateIdentifier lc t ttl \<noteq> []
   \<and> prefix (js ''notebooklm-archive-'') (generateIdentifier lc t ttl)
   \<and> drop 19 (generateIdentifier lc t ttl)
        = take 50 (cleanTitle lc ttl) @ js ''-'' @ show_int t
   \<and> drop 19 (generateIdentifier lc t ttl) \<noteq> []
   \<and> list_all (\<lambda>c. is_lower c \<or> is_digit c \<or> c = 45) (drop 19 (generateIdentifier lc t ttl))
   \<and> filter is_slug_char (cleanTitle lc ttl) = filter is_slug_char (lc ttl)
   \<and> list_all (\<lambda>c. is_lower c \<or> is_digit c \<or> c = 45) (cleanTitle lc ttl)
   \<and> \<not> sublist (js ''--'') (cleanTitle lc ttl)
   \<and> (cleanTitle lc ttl \<noteq> [] \<longrightarrow>
          hd (cleanTitle lc ttl) \<noteq> 45 \<and> last (cleanTitle lc ttl) \<noteq> 45)
   \<and> length (take 50 (cleanTitle lc ttl)) \<le> 50
   \<and> (t1 \<noteq> t2 \<longrightarrow> generateIdentifier lc t1 ttl \<noteq> generateIdentifier lc t2 ttl)"
proof -
  have rest: "drop 19 (generateIdentifier lc t ttl)
        = take 50 (cleanTitle lc ttl) @ js ''-'' @ show_int t"
    by (simp add: generateIdentifier_def js_def)
  have chars: "list_all (\<lambda>c. is_lower c \<or> is_digit c \<or> c = 45)
                 (take 50 (cleanTitle lc ttl) @ js ''-'' @ show_int t)"
    using cleanTitle_chars[of lc ttl] show_int_chars[of t]
    by (auto simp: list_all_iff js_hyphen dest: in_set_takeD)
  have dd: "js ''--'' = [45, 45]" by (simp add: js_def)
  show ?thesis
    unfolding rest dd
    using chars cleanTitle_keeps_slug_chars[of lc ttl] cleanTitle_chars[of lc ttl]
      cleanTitle_no_double_hyphen[of lc ttl] cleanTitle_ends[of lc ttl]
      generateIdentifier_distinct[of t1 t2 lc ttl]
    by (simp add: generateIdentifier_def js_hyphen)
qed

theorem generateIdentifier_valid_witness:
  "generateIdentifier ascii_lower 1700000000000 (js ''My Talk!'')
     = js ''notebooklm-archive-my-talk-1700000000000''
   \<and> cleanTitle ascii_lower (js ''My Talk!'') = js ''my-talk''
   \<and> generateIdentifier ascii_lower 1700000000000 (js ''My Talk!'')
       \<noteq> generateIdentifier ascii_lower 1700000000001 (js ''My Talk!'')
   \<and> hd (cleanTitle ascii_lower (js ''My Talk!'')) \<noteq> 45
   \<and> last (cleanTitle ascii_lower (js ''My Talk!'')) \<noteq> 45
   \<and> generateIdentifier ascii_lower 5 [] = js ''notebooklm-archive--5''"
proof -
  have c: "cleanTitle ascii_lower (js ''My Talk!'') = js ''my-talk''"
    by (simp add: cleanTitle_def ascii_lower_def js_def strip_ends_def is_slug_char_def
        is_lower_def is_upper_def is_digit_def)
  have s: "show_int 1700000000000 = js ''1700000000000''"
    by (simp add: show_int_def show_nat.simps js_def)
  have g: "generateIdentifier ascii_lower 1700000000000 (js ''My Talk!'')
     = js ''notebooklm-archive-my-talk-1700000000000''"
    by (simp add: generateIdentifier_def c s) (simp add: js_def)
  have e: "generateIdentifier ascii_lower 5 [] = js ''notebooklm-archive--5''"
    by (simp add: generateIdentifier_def cleanTitle_def ascii_lower_def strip_ends_def
        show_int_def show_nat.simps js_def)
  have ne: "cleanTitle ascii_lower (js ''My Talk!'') \<noteq> []"
    unfolding c by (simp add: js_def)
  have d: "(1700000000000::int) \<noteq> 1700000000001" by simp
  show ?thesis
    using generateIdentifier_valid[of ascii_lower 1700000000000 "js ''My Talk!''"
        1700000000000 1700000000001] g c e ne d
    by blast
qed


section \<open>Facts about the session\<close>

lemma last_segment_example: "last_segment 47 example_url = js ''notebooklm-archive-talk-7''"
  by (simp add: last_segment_def example_url_def js_def)

lemma success_page_eq:
  "success_page =
     \<lparr>keys = Some \<lparr>accessKey = js ''a'', secretKey = js ''s''\<rparr>, keysVerified = False,
      isSettingsOpen = False, step = SUCCESS, selectedFile = Some \<lparr>name = js ''talk.mp3''\<rparr>,
      userContext = [], metadata = example_metadata, isGenerating = False,
      uploadProgress = 0, successUrl = Some example_url, errorMsg = None,
      isVerifying = True, elapsedTime = 0, pollInterval = True, timerInterval = True,
      requests = [status_request (js ''notebooklm-archive-talk-7'') 8]\<rparr>"
proof -
  have ne: "example_url \<noteq> []" "js ''notebooklm-archive-talk-7'' \<noteq> []"
    by (simp_all add: example_url_def js_def)
  show ?thesis
    unfolding success_page_def upload_finished_def rerender_def handleUpload_settled_def
      handleUpload_start_def handleFileSelect_generated_def handleFileSelect_start_def
      verification_effect_def initial_state_def
    using ne by (simp add: last_segment_example Let_def)
qed

lemma timer_ticks:
  "timerInterval s \<Longrightarrow> (timer_tick ^^ n) s = s\<lparr>elapsedTime := elapsedTime s + n\<rparr>"
  by (induction n) (simp_all add: timer_tick_def)

lemma waiting_21s_eq: "waiting_21s = success_page\<lparr>elapsedTime := 21\<rparr>"
  unfolding waiting_21s_def by (subst timer_ticks) (simp_all add: success_page_eq)


section \<open>Cancelling verification: claim C1\<close>

text \<open>
  Claim C1 says that after the skip action no timer tick and no poll check changes the
  state. The skip button only calls \<open>setIsVerifying(false)\<close>: neither dependency of the
  effect changes, so its cleanup does not run and both intervals stay set, while the
  completion branch of \<open>checkStatus\<close> and the cleanup both clear them. Evaluated on the
  session: 21 seconds into the wait the user skips; the next timer tick still raises the
  elapsed time to 22 and the next poll tick still issues a status request.
\<close>

theorem skip_leaves_intervals_running:
  "isVerifying waiting_21s \<and> 20 < elapsedTime waiting_21s
   \<and> \<not> isVerifying (click_skip 30 waiting_21s)
   \<and> elapsedTime (click_skip 30 waiting_21s) = 21
   \<and> elapsedTime (timer_tick (click_skip 30 waiting_21s)) = 22
   \<and> requests (poll_tick 31 (click_skip 30 waiting_21s))
       = requests (click_skip 30 waiting_21s)
           @ [status_request (js ''notebooklm-archive-talk-7'') 31]
   \<and> timer_tick (click_skip 30 waiting_21s) \<noteq> click_skip 30 waiting_21s
   \<and> poll_tick 31 (click_skip 30 waiting_21s) \<noteq> click_skip 30 waiting_21s"
proof -
  have s: "click_skip 30 waiting_21s = success_page\<lparr>elapsedTime := 21, isVerifying := False\<rparr>"
    by (simp add: click_skip_def rerender_def waiting_21s_eq)
  have t: "elapsedTime (timer_tick (click_skip 30 waiting_21s)) = 22"
    unfolding s by (simp add: timer_tick_def success_page_eq)
  have p: "requests (poll_tick 31 (click_skip 30 waiting_21s))
       = requests (click_skip 30 waiting_21s)
           @ [status_request (js ''notebooklm-archive-talk-7'') 31]"
    unfolding s by (simp add: poll_tick_def success_page_eq last_segment_example)
  have e: "elapsedTime (click_skip 30 waiting_21s) = 21" unfolding s by simp
  have t': "timer_tick (click_skip 30 waiting_21s) \<noteq> click_skip 30 waiting_21s"
  proof
    assume "timer_tick (click_skip 30 waiting_21s) = click_skip 30 waiting_21s"
    then have "elapsedTime (timer_tick (click_skip 30 waiting_21s))
                 = elapsedTime (click_skip 30 waiting_21s)" by simp
    with t e show False by simp
  qed
  have p': "poll_tick 31 (click_skip 30 waiting_21s) \<noteq> click_skip 30 waiting_21s"
  proof
    assume "poll_tick 31 (click_skip 30 waiting_21s) = click_skip 30 waiting_21s"
    then have "requests (poll_tick 31 (click_skip 30 waiting_21s))
                 = requests (click_skip 30 waiting_21s)" by simp
    with p show False by simp
  qed
  have v: "isVerifying waiting_21s \<and> 20 < elapsedTime waiting_21s"
    by (simp add: waiting_21s_eq success_page_eq)
  have nv: "\<not> isVerifying (click_skip 30 waiting_21s)"
    unfolding s by simp
  show ?thesis
    using v nv e t p t' p' by blast
qed


section \<open>Reset: claim C2\<close>

text \<open>
  Claim C2 as stated fails: \<open>handleReset\<close> never touches the metadata, so after a reset
  from the success page the title is still the one of the finished upload.
\<close>

theorem click_reset_counterexample:
  "title (metadata (click_reset 60 success_page)) = js ''Talk''
   \<and> title (metadata initial_state) = []
   \<and> metadata (click_reset 60 success_page) \<noteq> metadata initial_state"
proof -
  have "metadata (click_reset 60 success_page) = example_metadata"
    by (simp add: click_reset_def rerender_def handleReset_def verification_effect_def
      success_page_eq)
  then show ?thesis
    by (simp add: example_metadata_def initial_state_def initial_metadata_def js_def)
qed

text \<open>
  Claim C2 as amended. From every state the reset leads to the step \<open>UPLOAD\<close> with no
  selected file, empty context text, no success URL, no error message, progress 0,
  verification off and elapsed time 0. The metadata are left as they were, and so are the
  requests already issued. When intervals only run on the success page (as they do in every
  run of the application), no interval runs after the reset.
\<close>

theorem click_reset_state:
  "step (click_reset now s) = UPLOAD
   \<and> selectedFile (click_reset now s) = None
   \<and> userContext (click_reset now s) = []
   \<and> successUrl (click_reset now s) = None
   \<and> errorMsg (click_reset now s) = None
   \<and> uploadProgress (click_reset now s) = 0
   \<and> isVerifying (click_reset now s) = False
   \<and> elapsedTime (click_reset now s) = 0
   \<and> metadata (click_reset now s) = metadata s
   \<and> requests (click_reset now s) = requests s
   \<and> ((pollInterval s \<or> timerInterval s \<longrightarrow> step s = SUCCESS) \<longrightarrow>
        \<not> pollInterval (click_reset now s) \<and> \<not> timerInterval (click_reset now s))"
  by (auto simp: click_reset_def rerender_def handleReset_def verification_effect_def)

theorem click_reset_state_witness:
  "pollInterval waiting_21s \<and> timerInterval waiting_21s \<and> step waiting_21s = SUCCESS
   \<and> elapsedTime waiting_21s = 21
   \<and> step (click_reset 60 waiting_21s) = UPLOAD
   \<and> selectedFile (click_reset 60 waiting_21s) = None
   \<and> successUrl (click_reset 60 waiting_21s) = None
   \<and> elapsedTime (click_reset 60 waiting_21s) = 0
   \<and> metadata (click_reset 60 waiting_21s) = example_metadata
   \<and> \<not> pollInterval (click_reset 60 waiting_21s)
   \<and> \<not> timerInterval (click_reset 60 waiting_21s)"
proof -
  have w: "pollInterval waiting_21s \<and> timerInterval waiting_21s \<and> step waiting_21s = SUCCESS
     \<and> elapsedTime waiting_21s = 21 \<and> metadata waiting_21s = example_metadata"
    by (simp add: waiting_21s_eq success_page_eq)
  show ?thesis
    using click_reset_state [of 60 waiting_21s] w by simp
qed


section \<open>The upload transport: claim C5\<close>

text \<open>
  Claim C5. The upload resolves exactly when the request loads with a status from 200 to
  299, and then with the public URL \<open>https://archive.org/details/<identifier>\<close> of the
  identifier generated for the title. On every other status it rejects with a message
  that contains the decimal status and the raw response body. On a network-level failure,
  where no status is known and no body was received, it rejects with the fixed message
  \<open>Network error during upload\<close>.
\<close>

theorem uploadToInternetArchive_outcome:
  "((\<exists>url. uploadToInternetArchive lc now m ev = Resolved url)
      \<longleftrightarrow> (\<exists>st body. ev = Load st body \<and> 200 \<le> st \<and> st \<le> 299))
   \<and> (\<forall>url. uploadToInternetArchive lc now m ev = Resolved url \<longrightarrow>
          url = js ''https://archive.org/details/'' @ generateIdentifier lc now (title m))
   \<and> (\<forall>st body. ev = Load st body \<and> \<not> (200 \<le> st \<and> st \<le> 299) \<longrightarrow>
          (\<exists>msg. uploadToInternetArchive lc now m ev = Rejected (Error msg)
             \<and> js_includes msg (show_nat st) \<and> js_includes msg body))
   \<and> (ev = NetworkError \<longrightarrow>
          uploadToInternetArchive lc now m ev
            = Rejected (Error (js ''Network error during upload'')))"
proof (cases ev)
  case (Load st body)
  have inc: "js_includes (upload_failure_message st body) (show_nat st)
             \<and> js_includes (upload_failure_message st body) body"
    unfolding js_includes_def upload_failure_message_def
    by (metis sublist_appendI sublist_append_leftI append_assoc)
  show ?thesis
  proof (cases "200 \<le> st \<and> st \<le> 299")
    case True
    then show ?thesis using Load by (auto simp: uploadToInternetArchive_def Let_def)
  next
    case False
    then show ?thesis using Load inc by (auto simp: uploadToInternetArchive_def Let_def)
  qed
next
  case NetworkError
  then show ?thesis by (simp add: uploadToInternetArchive_def Let_def)
qed

theorem uploadToInternetArchive_outcome_witness:
  "uploadToInternetArchive ascii_lower 7 (initial_metadata\<lparr>title := js ''A''\<rparr>) (Load 200 [])
     = Resolved (js ''https://archive.org/details/notebooklm-archive-a-7'')
   \<and> (\<exists>msg. uploadToInternetArchive ascii_lower 7 initial_metadata (Load 403 (js ''denied''))
               = Rejected (Error msg)
          \<and> js_includes msg (show_nat 403) \<and> js_includes msg (js ''denied''))
   \<and> uploadToInternetArchive ascii_lower 7 initial_metadata NetworkError
       = Rejected (Error (js ''Network error during upload''))"
proof -
  have a: "generateIdentifier ascii_lower 7 (js ''A'') = js ''notebooklm-archive-a-7''"
    by (simp add: generateIdentifier_def cleanTitle_def ascii_lower_def strip_ends_def
        show_int_def show_nat.simps js_def is_slug_char_def is_lower_def is_upper_def
        is_digit_def)
  have r: "\<exists>url. uploadToInternetArchive ascii_lower 7 (initial_metadata\<lparr>title := js ''A''\<rparr>)
             (Load 200 []) = Resolved url"
    using uploadToInternetArchive_outcome
      [of ascii_lower 7 "initial_metadata\<lparr>title := js ''A''\<rparr>" "Load 200 []"]
    by simp
  then obtain url where u: "uploadToInternetArchive ascii_lower 7
      (initial_metadata\<lparr>title := js ''A''\<rparr>) (Load 200 []) = Resolved url" by blast
  then have "url = js ''https://archive.org/details/''
       @ generateIdentifier ascii_lower 7 (title (initial_metadata\<lparr>title := js ''A''\<rparr>))"
    using uploadToInternetArchive_outcome
      [of ascii_lower 7 "initial_metadata\<lparr>title := js ''A''\<rparr>" "Load 200 []"]
    by blast
  then have "url = js ''https://archive.org/details/notebooklm-archive-a-7''"
    by (simp add: a) (simp add: js_def)
  with u have c1: "uploadToInternetArchive ascii_lower 7 (initial_metadata\<lparr>title := js ''A''\<rparr>)
      (Load 200 []) = Resolved (js ''https://archive.org/details/notebooklm-archive-a-7'')"
    by simp
  have c2: "\<exists>msg. uploadToInternetArchive ascii_lower 7 initial_metadata (Load 403 (js ''denied''))
               = Rejected (Error msg)
          \<and> js_includes msg (show_nat 403) \<and> js_includes msg (js ''denied'')"
    using uploadToInternetArchive_outcome
      [of ascii_lower 7 initial_metadata "Load 403 (js ''denied'')"]
    by simp
  have c3: "uploadToInternetArchive ascii_lower 7 initial_metadata NetworkError
       = Rejected (Error (js ''Network error during upload''))"
    using uploadToInternetArchive_outcome [of ascii_lower 7 initial_metadata NetworkError]
    by simp
  show ?thesis using c1 c2 c3 by blast
qed


section \<open>The credential verifier: claim C9\<close>

text \<open>
  Once the request is sent, the verifier resolves, with \<open>true\<close> exactly on a load with
  status 200.
\<close>

lemma verifyCredentials_sent:
  "header_value_ok (js ''LOW '' @ accessKey k @ js '':'' @ secretKey k) \<Longrightarrow>
     verifyCredentials k ev = Resolved (\<exists>body. ev = Load 200 body)"
  by (cases ev) (auto simp: verifyCredentials_def)

text \<open>
  Claim C9 says that the verifier never rejects, for every credential pair. The executor
  sets the \<open>Authorization\<close> header with no \<open>try\<close>/\<open>catch\<close> around the call (the upload has
  one around each header), so a key with a character beyond Latin-1 makes
  \<open>setRequestHeader\<close> throw and the promise reject, whatever the server would answer.
  Evaluated for an access key of four Cyrillic letters.
\<close>

theorem verifyCredentials_rejects:
  "verifyCredentials \<lparr>accessKey = [1082, 1083, 1102, 1095], secretKey = js ''s3cret''\<rparr>
     (Load 200 []) = Rejected HeaderException
   \<and> verifyCredentials \<lparr>accessKey = [1082, 1083, 1102, 1095], secretKey = js ''s3cret''\<rparr>
     NetworkError = Rejected HeaderException"
  by (simp add: verifyCredentials_def header_value_ok_def js_def)


section \<open>One poller check: claim C4\<close>

lemma get_prop_field: "v \<noteq> JNull \<Longrightarrow> get_prop (Some v) k = Some (field v k)"
  by (cases v) (simp_all add: field_def)

lemma falsy_field: "\<not> truthy (Some v) \<Longrightarrow> field v k = None"
  by (cases v) (simp_all add: field_def)

lemma truthy_not_null: "truthy (Some v) \<Longrightarrow> v \<noteq> JNull"
  by (cases v) simp_all

lemma metadata_matches_eq:
  "metadata_matches i data = Some (declared_identifier data = Some (JStr i))"
proof (cases "truthy (Some data)")
  case False
  then show ?thesis by (simp add: metadata_matches_def declared_identifier_def falsy_field)
next
  case True
  then have d: "get_prop (Some data) (js ''metadata'') = Some (field data (js ''metadata''))"
    by (simp add: get_prop_field truthy_not_null)
  show ?thesis
  proof (cases "field data (js ''metadata'')")
    case None
    then show ?thesis using True d by (simp add: metadata_matches_def declared_identifier_def)
  next
    case (Some md)
    show ?thesis
    proof (cases "truthy (Some md)")
      case False
      then show ?thesis using True d Some
        by (simp add: metadata_matches_def declared_identifier_def falsy_field)
    next
      case t: True
      then show ?thesis using True d Some
        by (simp add: metadata_matches_def declared_identifier_def get_prop_field truthy_not_null)
    qed
  qed
qed

lemma some_png_eq:
  "(case some_png fs of None \<Rightarrow> False | Some w \<Rightarrow> w)
     = (\<exists>ps f ss. fs = ps @ f # ss \<and> JNull \<notin> set ps
          \<and> declared_format f = Some (JStr (js ''PNG'')))"
proof (induction fs)
  case Nil
  then show ?case by simp
next
  case (Cons g gs)
  show ?case
  proof (cases "g = JNull")
    case True
    have "\<not> (\<exists>ps f ss. g # gs = ps @ f # ss \<and> JNull \<notin> set ps
          \<and> declared_format f = Some (JStr (js ''PNG'')))"
      using True by (auto simp: Cons_eq_append_conv declared_format_def field_def)
    then show ?thesis using True by simp
  next
    case False
    then have g: "get_prop (Some g) (js ''format'') = Some (declared_format g)"
      by (simp add: get_prop_field declared_format_def)
    show ?thesis
    proof (cases "declared_format g = Some (JStr (js ''PNG''))")
      case True
      then have "g # gs = [] @ g # gs \<and> JNull \<notin> set []
          \<and> declared_format g = Some (JStr (js ''PNG''))" by simp
      then have "\<exists>ps f ss. g # gs = ps @ f # ss \<and> JNull \<notin> set ps
          \<and> declared_format f = Some (JStr (js ''PNG''))" by blast
      then show ?thesis using g True by simp
    next
      case no: False
      have "(\<exists>ps f ss. g # gs = ps @ f # ss \<and> JNull \<notin> set ps
               \<and> declared_format f = Some (JStr (js ''PNG'')))
            \<longleftrightarrow> (\<exists>ps f ss. gs = ps @ f # ss \<and> JNull \<notin> set ps
               \<and> declared_format f = Some (JStr (js ''PNG'')))"
      proof
        assume "\<exists>ps f ss. g # gs = ps @ f # ss \<and> JNull \<notin> set ps
               \<and> declared_format f = Some (JStr (js ''PNG''))"
        then obtain ps f ss where h: "g # gs = ps @ f # ss" "JNull \<notin> set ps"
          "declared_format f = Some (JStr (js ''PNG''))" by blast
        from h(1) h(3) no obtain ps' where "ps = g # ps'" "gs = ps' @ f # ss"
          by (cases ps) auto
        then show "\<exists>ps f ss. gs = ps @ f # ss \<and> JNull \<notin> set ps
               \<and> declared_format f = Some (JStr (js ''PNG''))"
          using h(2,3) by auto
      next
        assume "\<exists>ps f ss. gs = ps @ f # ss \<and> JNull \<notin> set ps
               \<and> declared_format f = Some (JStr (js ''PNG''))"
        then obtain ps f ss where h: "gs = ps @ f # ss" "JNull \<notin> set ps"
          "declared_format f = Some (JStr (js ''PNG''))" by blast
        then have "g # gs = (g # ps) @ f # ss \<and> JNull \<notin> set (g # ps)
               \<and> declared_format f = Some (JStr (js ''PNG''))"
          using False by simp
        then show "\<exists>ps f ss. g # gs = ps @ f # ss \<and> JNull \<notin> set ps
               \<and> declared_format f = Some (JStr (js ''PNG''))" by blast
      qed
      then show ?thesis using g no Cons.IH by simp
    qed
  qed
qed

lemma hasWaveform_eq:
  "(case hasWaveform data of None \<Rightarrow> False | Some w \<Rightarrow> w)
     = (\<exists>ps f ss. file_listing data = ps @ f # ss \<and> JNull \<notin> set ps
          \<and> declared_format f = Some (JStr (js ''PNG'')))"
proof (cases "data = JNull")
  case True
  then show ?thesis by (simp add: hasWaveform_def file_listing_def field_def)
next
  case False
  then have d: "get_prop (Some data) (js ''files'') = Some (field data (js ''files''))"
    by (simp add: get_prop_field)
  show ?thesis
  proof (cases "field data (js ''files'')")
    case None
    then show ?thesis using d by (simp add: hasWaveform_def file_listing_def)
  next
    case (Some files)
    show ?thesis
    proof (cases files)
      case (JArr fs)
      then have "file_listing data = fs" using Some by (simp add: file_listing_def)
      then show ?thesis using d Some JArr by (simp add: hasWaveform_def some_png_eq)
    qed (use d Some in \<open>simp_all add: hasWaveform_def file_listing_def\<close>)
  qed
qed

lemma null_first_listing:
  "file_listing null_first_response = [JNull, JObj [(js ''format'', JStr (js ''PNG''))]]
   \<and> declared_identifier null_first_response = Some (JStr (js ''notebooklm-archive-talk-7''))"
  by (simp add: file_listing_def declared_identifier_def null_first_response_def field_def
      js_def)

lemma null_last_listing:
  "file_listing null_last_response = [JObj [(js ''format'', JStr (js ''PNG''))], JNull]
   \<and> declared_identifier null_last_response = Some (JStr (js ''notebooklm-archive-talk-7''))"
  by (simp add: file_listing_def declared_identifier_def null_last_response_def field_def
      js_def)

lemma png_entry_format:
  "declared_format (JObj [(js ''format'', JStr (js ''PNG''))]) = Some (JStr (js ''PNG''))"
  by (simp add: declared_format_def field_def js_def)

text \<open>
  Claim C4 as stated fails. The callback of \<open>some\<close> reads \<open>f.format\<close> of every entry it
  reaches; on a \<open>null\<close> entry that read throws, the \<open>catch\<close> swallows the exception and the
  check does not signal, although the response is successful, the identifier matches and
  the listing behind the \<open>null\<close> holds an entry of format \<open>PNG\<close>.
\<close>

theorem check_passes_counterexample:
  "\<not> check_passes (js ''notebooklm-archive-talk-7'') (Response True (Some null_first_response))
   \<and> declared_identifier null_first_response = Some (JStr (js ''notebooklm-archive-talk-7''))
   \<and> JObj [(js ''format'', JStr (js ''PNG''))] \<in> set (file_listing null_first_response)
   \<and> declared_format (JObj [(js ''format'', JStr (js ''PNG''))]) = Some (JStr (js ''PNG''))"
proof -
  have "\<not> check_passes (js ''notebooklm-archive-talk-7'')
           (Response True (Some null_first_response))"
    by (simp add: check_passes_def metadata_matches_def hasWaveform_def
        null_first_response_def js_def)
  then show ?thesis using null_first_listing png_entry_format by simp
qed

text \<open>
  Claim C4 as amended. A check signals completion exactly when the response is successful,
  its body parses, the identifier its metadata declare equals the requested one and the
  file listing holds an entry of format \<open>PNG\<close> with no \<open>null\<close> entry before it. A check
  that signals sets \<open>isVerifying\<close> to false and clears both intervals; every other check,
  also one whose fetch fails or whose status is not a success, leaves the state as it is,
  so the intervals stay set and polling goes on.
\<close>

theorem check_passes_iff:
  "(check_passes identifier outcome
      \<longleftrightarrow> (\<exists>data. outcome = Response True (Some data)
             \<and> declared_identifier data = Some (JStr identifier)
             \<and> (\<exists>ps f ss. file_listing data = ps @ f # ss \<and> JNull \<notin> set ps
                    \<and> declared_format f = Some (JStr (js ''PNG'')))))
   \<and> (check_passes identifier outcome \<longrightarrow>
        checkStatus identifier outcome s
          = s\<lparr>isVerifying := False, pollInterval := False, timerInterval := False\<rparr>)
   \<and> (\<not> check_passes identifier outcome \<longrightarrow> checkStatus identifier outcome s = s)
   \<and> \<not> check_passes identifier FetchRejected
   \<and> (\<forall>body. \<not> check_passes identifier (Response False body))"
proof -
  have a: "check_passes identifier outcome
      \<longleftrightarrow> (\<exists>data. outcome = Response True (Some data)
             \<and> declared_identifier data = Some (JStr identifier)
             \<and> (\<exists>ps f ss. file_listing data = ps @ f # ss \<and> JNull \<notin> set ps
                    \<and> declared_format f = Some (JStr (js ''PNG''))))"
  proof (cases outcome)
    case FetchRejected
    then show ?thesis by (simp add: check_passes_def)
  next
    case (Response ok body)
    show ?thesis
    proof (cases body)
      case None
      then show ?thesis using Response by (simp add: check_passes_def)
    next
      case (Some data)
      show ?thesis
      proof (cases ok)
        case False
        then show ?thesis using Response Some by (simp add: check_passes_def)
      next
        case True
        have "check_passes identifier (Response True (Some data))
               \<longleftrightarrow> declared_identifier data = Some (JStr identifier)
                   \<and> (case hasWaveform data of None \<Rightarrow> False | Some w \<Rightarrow> w)"
          by (simp add: check_passes_def metadata_matches_eq)
        then show ?thesis using Response Some True by (simp add: hasWaveform_eq)
      qed
    qed
  qed
  have b: "check_passes identifier outcome \<longrightarrow>
              checkStatus identifier outcome s
                = s\<lparr>isVerifying := False, pollInterval := False, timerInterval := False\<rparr>"
    by (simp add: checkStatus_def)
  have c: "\<not> check_passes identifier outcome \<longrightarrow> checkStatus identifier outcome s = s"
    by (simp add: checkStatus_def)
  have d: "\<not> check_passes identifier FetchRejected"
    by (simp add: check_passes_def)
  have e: "\<forall>body. \<not> check_passes identifier (Response False body)"
    by (simp add: check_passes_def)
  show ?thesis using a b c d e by blast
qed

theorem check_passes_iff_witness:
  "check_passes (js ''notebooklm-archive-talk-7'') (Response True (Some example_response))
   \<and> check_passes (js ''notebooklm-archive-talk-7'') (Response True (Some null_last_response))
   \<and> \<not> check_passes (js ''notebooklm-archive-talk-8'') (Response True (Some example_response))
   \<and> pollInterval (checkStatus (js ''notebooklm-archive-talk-8'')
        (Response True (Some example_response)) waiting_21s)
   \<and> \<not> pollInterval (checkStatus (js ''notebooklm-archive-talk-7'')
        (Response True (Some example_response)) waiting_21s)
   \<and> checkStatus (js ''notebooklm-archive-talk-7'') FetchRejected waiting_21s = waiting_21s"
proof -
  let ?mp3 = "JObj [(js ''name'', JStr (js ''talk.mp3'')), (js ''format'', JStr (js ''VBR MP3''))]"
  let ?png = "JObj [(js ''name'', JStr (js ''talk.png'')), (js ''format'', JStr (js ''PNG''))]"
  have fl: "file_listing example_response = [?mp3] @ ?png # []"
    by (simp add: file_listing_def example_response_def field_def js_def)
  have di: "declared_identifier example_response = Some (JStr (js ''notebooklm-archive-talk-7''))"
    by (simp add: declared_identifier_def example_response_def field_def js_def)
  have fp: "declared_format ?png = Some (JStr (js ''PNG''))"
    by (simp add: declared_format_def field_def js_def)
  have png: "\<exists>ps f ss. file_listing example_response = ps @ f # ss \<and> JNull \<notin> set ps
      \<and> declared_format f = Some (JStr (js ''PNG''))"
  proof -
    have "file_listing example_response = [?mp3] @ ?png # [] \<and> JNull \<notin> set [?mp3]
      \<and> declared_format ?png = Some (JStr (js ''PNG''))"
      using fl fp by simp
    then show ?thesis by blast
  qed
  have pngl: "\<exists>ps f ss. file_listing null_last_response = ps @ f # ss \<and> JNull \<notin> set ps
      \<and> declared_format f = Some (JStr (js ''PNG''))"
  proof -
    have "file_listing null_last_response
            = [] @ JObj [(js ''format'', JStr (js ''PNG''))] # [JNull] \<and> JNull \<notin> set []
      \<and> declared_format (JObj [(js ''format'', JStr (js ''PNG''))]) = Some (JStr (js ''PNG''))"
      using null_last_listing png_entry_format by simp
    then show ?thesis by blast
  qed
  have ne: "js ''notebooklm-archive-talk-8'' \<noteq> js ''notebooklm-archive-talk-7''"
    by (simp add: js_def)
  note t7 = check_passes_iff
    [of "js ''notebooklm-archive-talk-7''" "Response True (Some example_response)" waiting_21s]
  note tl = check_passes_iff
    [of "js ''notebooklm-archive-talk-7''" "Response True (Some null_last_response)" waiting_21s]
  note t8 = check_passes_iff
    [of "js ''notebooklm-archive-talk-8''" "Response True (Some example_response)" waiting_21s]
  note tr = check_passes_iff [of "js ''notebooklm-archive-talk-7''" FetchRejected waiting_21s]
  have p7: "check_passes (js ''notebooklm-archive-talk-7'') (Response True (Some example_response))"
    using t7 di png by blast
  have pl: "check_passes (js ''notebooklm-archive-talk-7'')
      (Response True (Some null_last_response))"
    using tl null_last_listing pngl by blast
  have p8: "\<not> check_passes (js ''notebooklm-archive-talk-8'') (Response True (Some example_response))"
    using t8 di ne by auto
  have s8: "checkStatus (js ''notebooklm-archive-talk-8'')
        (Response True (Some example_response)) waiting_21s = waiting_21s"
    using t8 p8 by blast
  have s7: "checkStatus (js ''notebooklm-archive-talk-7'')
        (Response True (Some example_response)) waiting_21s
         = waiting_21s\<lparr>isVerifying := False, pollInterval := False, timerInterval := False\<rparr>"
    using t7 p7 by blast
  have sr: "checkStatus (js ''notebooklm-archive-talk-7'') FetchRejected waiting_21s = waiting_21s"
    using tr by blast
  have pw: "pollInterval waiting_21s" by (simp add: waiting_21s_eq success_page_eq)
  show ?thesis
    using p7 pl p8 sr pw by (simp add: s7 s8)
qed


section \<open>The object name of the upload: claim C7\<close>

lemma last_segment_append:
  "sep \<notin> set e \<Longrightarrow> last_segment sep (base @ sep # e) = e"
proof -
  assume a: "sep \<notin> set e"
  have "takeWhile (\<lambda>c. c \<noteq> sep) (rev e @ sep # rev base) = rev e"
    using a by (simp add: takeWhile_append)
  then show ?thesis by (simp add: last_segment_def)
qed

lemma dot_is_filename_char: "is_filename_char 46"
  by (simp add: is_filename_char_def)

lemma replaced_is_dot: "((if is_filename_char c then c else 95) = 46) = (c = 46)"
  by (simp add: is_filename_char_def)

lemma strip_extension_append:
  "e \<noteq> [] \<Longrightarrow> 46 \<notin> set e \<Longrightarrow> strip_extension (base @ 46 # e) = base"
  by (simp add: strip_extension_def last_segment_append)

text \<open>
  Where the name has an extension (a last dot followed by at least one character), the
  object name is the part before that dot with every character outside \<open>[a-zA-Z0-9.-]\<close>
  replaced by an underscore, then the dot and the original extension unchanged.
\<close>

lemma safeFilename_with_extension:
  assumes "e \<noteq> []" and "46 \<notin> set e"
  shows "safeFilename (base @ js ''.'' @ e)
           = map (\<lambda>c. if is_filename_char c then c else 95) base @ js ''.'' @ e"
proof -
  let ?f = "\<lambda>c. if is_filename_char c then c else 95"
  have d: "js ''.'' = [46]" by (simp add: js_def)
  have m: "map ?f (base @ 46 # e) = map ?f base @ 46 # map ?f e"
    by (simp add: dot_is_filename_char)
  have "46 \<notin> set (map ?f e)"
    using assms(2) by (auto simp: replaced_is_dot)
  moreover have "map ?f e \<noteq> []" using assms(1) by simp
  ultimately have s: "strip_extension (map ?f base @ 46 # map ?f e) = map ?f base"
    by (rule strip_extension_append[rotated])
  have l: "last_segment 46 (base @ 46 # e) = e"
    using assms(2) by (rule last_segment_append)
  show ?thesis
    unfolding safeFilename_def d using assms(1) by (simp add: l m s del: map_append)
qed

text \<open>
  Where the name has no dot, \<open>split('.').pop()\<close> is the whole name, which is not empty, so
  the fallback \<open>|| 'mp3'\<close> is not taken and the whole raw name is appended as the
  extension.
\<close>

lemma last_segment_whole: "sep \<notin> set s \<Longrightarrow> last_segment sep s = s"
proof -
  assume "sep \<notin> set s"
  then have "\<forall>x\<in>set (rev s). x \<noteq> sep" by auto
  then have "takeWhile (\<lambda>c. c \<noteq> sep) (rev s) = rev s"
    by (simp only: takeWhile_eq_all_conv)
  then show ?thesis
    unfolding last_segment_def by (simp only: rev_rev_ident)
qed

lemma strip_extension_no_dot: "46 \<notin> set t \<Longrightarrow> strip_extension t = t"
  by (simp add: strip_extension_def)

lemma safeFilename_without_dot:
  assumes "n \<noteq> []" and "46 \<notin> set n"
  shows "safeFilename n = map (\<lambda>c. if is_filename_char c then c else 95) n @ js ''.'' @ n"
proof -
  let ?f = "\<lambda>c. if is_filename_char c then c else 95"
  have "46 \<notin> set (map ?f n)"
    using assms(2) by (auto simp: replaced_is_dot)
  then have s: "strip_extension (map ?f n) = map ?f n"
    by (rule strip_extension_no_dot)
  have l: "last_segment 46 n = n"
    using assms(2) by (rule last_segment_whole)
  show ?thesis
    unfolding safeFilename_def l s using assms(1) by simp
qed

text \<open>
  Claim C7 says that the object name preserves the original extension of the file name,
  also for a name that contains no dot. Such a name has no extension, and the source
  provides the default \<open>mp3\<close> for a missing one; but \<open>split('.').pop()\<close> returns the whole
  name when there is no dot, so the default is never reached and the object name gets the
  whole raw name as its extension. Evaluated for \<open>talk\<close> and for \<open>my talk\<close>, whose space
  comes back in the object name.
\<close>

theorem safeFilename_no_dot:
  "safeFilename (js ''talk'') = js ''talk.talk''
   \<and> safeFilename (js ''my talk'') = js ''my_talk.my talk''"
  by (simp add: safeFilename_def strip_extension_def last_segment_def js_def
      is_filename_char_def is_lower_def is_upper_def is_digit_def)


section \<open>Classifying a failure: claim C8\<close>
















section \<open>Facts about the header sanitizer\<close>

lemma percent_not_hex: "\<not> is_hex 37"
  by (simp add: is_hex_def is_digit_def)

lemma hex_plain:
  "is_hex c \<Longrightarrow> c \<noteq> 37 \<and> c \<noteq> 32 \<and> c \<le> 255 \<and> \<not> is_space c \<and> \<not> is_crlf c"
  by (auto simp: is_hex_def is_digit_def is_space_def is_crlf_def)

lemma percent_plain: "\<not> is_space 37 \<and> \<not> is_crlf 37"
  by (simp add: is_space_def is_crlf_def)

text \<open>A pass over a string with an undecodable escape in it works on both sides alone.\<close>

lemma replace_escapes_around:
  assumes "is_hex a" "is_hex b" "decodeURIComponent a b = None"
  shows "replace_escapes (xs @ 37 # a # b # ys) = replace_escapes xs @ 37 # a # b # replace_escapes ys"
proof (induction xs rule: replace_escapes.induct)
  case (1 p c d rest)
  then show ?case by simp
qed (use assms in \<open>simp_all add: decode_match_def percent_not_hex\<close>)

lemma sublist_replace_escapes:
  assumes "is_hex a" "is_hex b" "decodeURIComponent a b = None"
    and "sublist [37, a, b] s"
  shows "sublist [37, a, b] (replace_escapes s)"
proof -
  from assms(4) obtain xs ys where "s = xs @ [37, a, b] @ ys" by (auto simp: sublist_def)
  then have "replace_escapes s = replace_escapes xs @ [37, a, b] @ replace_escapes ys"
    using replace_escapes_around[OF assms(1-3)] by simp
  then show ?thesis by (metis sublist_appendI)
qed

lemma sublist_decode_loop:
  assumes "is_hex a" "is_hex b" "decodeURIComponent a b = None"
  shows "sublist [37, a, b] s \<Longrightarrow> sublist [37, a, b] (decode_loop n s)"
proof (induction n s rule: decode_loop.induct)
  case (1 loopCount clean)
  show ?case
  proof (cases "has_escape clean \<and> loopCount < 5 \<and> replace_escapes clean \<noteq> clean")
    case True
    then have "decode_loop loopCount clean = decode_loop (loopCount + 1) (replace_escapes clean)"
      by (subst decode_loop.simps) (simp add: Let_def)
    moreover have "sublist [37, a, b] (replace_escapes clean)"
      using assms "1.prems" by (rule sublist_replace_escapes)
    ultimately show ?thesis using True "1.IH" by simp
  next
    case False
    then have "decode_loop loopCount clean = clean"
      by (subst decode_loop.simps) (auto simp: Let_def)
    then show ?thesis using "1.prems" by simp
  qed
qed


text \<open>Forward: a piece without characters of the class survives the replacement.\<close>

lemma dropWhile_none: "zs = [] \<or> \<not> C (hd zs) \<Longrightarrow> dropWhile C zs = zs"
  by (cases zs) auto

lemma dropWhile_append_keep:
  "zs = [] \<or> \<not> C (hd zs) \<Longrightarrow> dropWhile C (xs @ zs) = dropWhile C xs @ zs"
  by (induction xs) (simp_all add: dropWhile_none)

lemma replace_runs_append_keep:
  "zs = [] \<or> \<not> C (hd zs) \<Longrightarrow>
     replace_runs C r (xs @ zs) = replace_runs C r xs @ replace_runs C r zs"
proof (induction C r xs rule: replace_runs.induct)
  case (1 C r)
  then show ?case by simp
next
  case (2 C r x xs)
  then show ?case by (simp add: dropWhile_append_keep)
qed

lemma replace_runs_plain:
  "list_all (\<lambda>c. \<not> C c) e \<Longrightarrow> replace_runs C r (e @ ys) = e @ replace_runs C r ys"
  by (induction e) simp_all

lemma sublist_replace_runs_fwd:
  assumes "e \<noteq> []" and "list_all (\<lambda>c. \<not> C c) e" and "sublist e s"
  shows "sublist e (replace_runs C r s)"
proof -
  from assms(3) obtain xs ys where s: "s = xs @ e @ ys" by (auto simp: sublist_def)
  have "\<not> C (hd (e @ ys))" using assms(1,2) by (cases e) auto
  then have "replace_runs C r s = replace_runs C r xs @ replace_runs C r (e @ ys)"
    unfolding s by (intro replace_runs_append_keep) simp
  then have "replace_runs C r s = replace_runs C r xs @ e @ replace_runs C r ys"
    using assms(2) by (simp add: replace_runs_plain)
  then show ?thesis by (metis sublist_appendI)
qed

lemma sublist_map_fwd:
  assumes "\<forall>c\<in>set e. f c = c" and "sublist e s"
  shows "sublist e (map f s)"
proof -
  have "map f e = e" using assms(1) by (simp add: map_idI)
  then show ?thesis using map_mono_sublist[OF assms(2), of f] by simp
qed

lemma dropWhile_keep:
  "zs \<noteq> [] \<Longrightarrow> \<not> C (hd zs) \<Longrightarrow> \<exists>xs'. dropWhile C (xs @ zs) = xs' @ zs"
  using dropWhile_append_keep[of zs C xs] by auto

lemma sublist_strip_ends_fwd:
  assumes "e \<noteq> []" and "list_all (\<lambda>c. \<not> C c) e" and "sublist e s"
  shows "sublist e (strip_ends C s)"
proof -
  from assms(3) obtain xs ys where s: "s = xs @ e @ ys" by (auto simp: sublist_def)
  have h: "\<not> C (hd (e @ ys))" using assms(1,2) by (cases e) auto
  have "e @ ys \<noteq> []" using assms(1) by simp
  with h obtain xs' where d: "dropWhile C s = xs' @ e @ ys"
    unfolding s using dropWhile_keep[of "e @ ys" C xs] by auto
  have l: "\<not> C (hd (rev e @ rev xs'))"
    using assms(1,2) by (cases e rule: rev_cases) auto
  have "rev e @ rev xs' \<noteq> []" using assms(1) by simp
  with l obtain ys' where "dropWhile C (rev ys @ rev e @ rev xs') = ys' @ rev e @ rev xs'"
    using dropWhile_keep[of "rev e @ rev xs'" C "rev ys"] by auto
  then have "strip_ends C s = xs' @ e @ rev ys'"
    by (simp add: strip_ends_def d)
  then show ?thesis by (metis sublist_appendI)
qed

text \<open>Backward: a piece without the replacement character was there before.\<close>

lemma prefix_replace_runs_back:
  "h \<notin> set e \<Longrightarrow> prefix e (replace_runs C [h] xs) \<Longrightarrow> prefix e xs"
proof (induction C "[h]" xs arbitrary: e rule: replace_runs.induct)
  case (1 C)
  then show ?case by simp
next
  case (2 C x xs)
  show ?case
  proof (cases e)
    case Nil
    then show ?thesis by simp
  next
    case (Cons y e')
    show ?thesis
    proof (cases "C x")
      case True
      then show ?thesis using 2 Cons by auto
    next
      case False
      then show ?thesis using 2 Cons by auto
    qed
  qed
qed

lemma sublist_dropWhile_back: "sublist e (dropWhile C xs) \<Longrightarrow> sublist e xs"
  using suffix_dropWhile[of C xs] by (meson sublist_order.order_trans suffix_imp_sublist)

lemma sublist_replace_runs_back:
  "e \<noteq> [] \<Longrightarrow> h \<notin> set e \<Longrightarrow> sublist e (replace_runs C [h] xs) \<Longrightarrow> sublist e xs"
proof (induction C "[h]" xs rule: replace_runs.induct)
  case (1 C)
  then show ?case by simp
next
  case (2 C x xs)
  show ?case
  proof (cases "C x")
    case True
    have "\<not> prefix e (h # replace_runs C [h] (dropWhile C xs))"
      using "2.prems"(1,2) by (cases e) auto
    then have "sublist e (replace_runs C [h] (dropWhile C xs))"
      using "2.prems"(3) True by (simp add: sublist_Cons_right)
    then have "sublist e (dropWhile C xs)" using 2 True by simp
    then have "sublist e xs" by (rule sublist_dropWhile_back)
    then show ?thesis by (simp add: sublist_Cons_right)
  next
    case False
    then have "prefix e (x # replace_runs C [h] xs) \<or> sublist e (replace_runs C [h] xs)"
      using "2.prems"(3) by (simp add: sublist_Cons_right)
    then show ?thesis
    proof
      assume "prefix e (x # replace_runs C [h] xs)"
      then have "prefix e (replace_runs C [h] (x # xs))" using False by simp
      then have "prefix e (x # xs)" using "2.prems"(2) by (rule prefix_replace_runs_back[rotated])
      then show ?thesis by auto
    next
      assume "sublist e (replace_runs C [h] xs)"
      then have "sublist e xs" using 2 False by simp
      then show ?thesis by (simp add: sublist_Cons_right)
    qed
  qed
qed

lemma sublist_map_back:
  assumes "\<forall>c. f c \<in> set e \<longrightarrow> f c = c" and "sublist e (map f s)"
  shows "sublist e s"
proof -
  from assms(2) obtain ps ss where "map f s = ps @ (e @ ss)" by (auto simp: sublist_def)
  then obtain ps' vs where v: "s = ps' @ vs" "map f vs = e @ ss"
    by (metis map_eq_append_conv)
  then obtain e' ss' where "vs = e' @ ss'" and e: "map f e' = e"
    by (metis map_eq_append_conv)
  with v have s: "s = ps' @ e' @ ss'" by simp
  have "\<forall>c\<in>set e'. f c = c"
    using assms(1) e by auto
  then have "map f e' = e'" by (simp add: map_idI)
  then show ?thesis using s e by (metis sublist_appendI)
qed


lemma sublist_clean_whitespace_fwd:
  assumes "e \<noteq> []" and "list_all (\<lambda>c. \<not> is_space c \<and> \<not> is_crlf c \<and> c \<le> 255) e"
    and "sublist e s"
  shows "sublist e (clean_whitespace s)"
proof -
  have c1: "list_all (\<lambda>c. \<not> is_crlf c) e" and c2: "list_all (\<lambda>c. \<not> is_space c) e"
    and c3: "\<forall>c\<in>set e. (if 255 < c then 32 else c) = c"
    using assms(2) by (auto simp: list_all_iff)
  have "sublist e (replace_runs is_crlf (js '' '') s)"
    using assms(1) c1 assms(3) by (rule sublist_replace_runs_fwd)
  with c3 have "sublist e (map (\<lambda>c. if 255 < c then 32 else c)
      (replace_runs is_crlf (js '' '') s))"
    by (rule sublist_map_fwd)
  with assms(1) c2 have "sublist e (replace_runs is_space (js '' '')
      (map (\<lambda>c. if 255 < c then 32 else c) (replace_runs is_crlf (js '' '') s)))"
    by (rule sublist_replace_runs_fwd)
  with assms(1) c2 show ?thesis
    unfolding clean_whitespace_def trim_def
    by (rule sublist_strip_ends_fwd)
qed

lemma js_space: "js '' '' = [32]"
  by (simp add: js_def)

lemma sublist_clean_whitespace_back:
  assumes "e \<noteq> []" and "32 \<notin> set e" and "sublist e (clean_whitespace s)"
  shows "sublist e s"
proof -
  let ?s1 = "replace_runs is_crlf [32] s"
  let ?s2 = "map (\<lambda>c. if 255 < c then 32 else c) ?s1"
  let ?s3 = "replace_runs is_space [32] ?s2"
  have "sublist (clean_whitespace s) ?s3"
    unfolding clean_whitespace_def trim_def js_space by (rule sublist_strip_ends)
  with assms(3) have "sublist e ?s3" by (rule sublist_order.order_trans)
  with assms(1,2) have "sublist e ?s2" by (rule sublist_replace_runs_back)
  have m: "\<forall>c. (if 255 < c then 32 else c) \<in> set e \<longrightarrow> (if 255 < c then 32 else c) = c"
    using assms(2) by auto
  from m \<open>sublist e ?s2\<close> have "sublist e ?s1" by (rule sublist_map_back)
  with assms(1,2) show ?thesis by (rule sublist_replace_runs_back)
qed


lemma escape_plain:
  "is_hex a \<Longrightarrow> is_hex b \<Longrightarrow>
     list_all (\<lambda>c. \<not> is_space c \<and> \<not> is_crlf c \<and> c \<le> 255) [37, a, b] \<and> 32 \<notin> set [37, a, b]"
  using hex_plain[of a] hex_plain[of b] percent_plain by auto


section \<open>Escapes beyond ASCII: claim C10\<close>

text \<open>
  Claim C10. For a percent escape with hexadecimal digits \<open>a\<close> and \<open>b\<close>: decoding fails
  exactly when the byte is 0x80 or above; a byte below 0x80 is replaced by its character;
  an escape of a byte from 0x80 on is returned unchanged by the callback, a pass leaves it
  in place between the passes over the text before and behind it, and the output of the
  sanitizer still contains it verbatim, wherever it stood in the input.
\<close>

theorem undecodable_escape_kept:
  assumes "is_hex a" and "is_hex b"
  shows "(decodeURIComponent a b = None \<longleftrightarrow> 128 \<le> 16 * hexval a + hexval b)
     \<and> (16 * hexval a + hexval b < 128 \<longrightarrow> decode_match a b = [16 * hexval a + hexval b])
     \<and> (128 \<le> 16 * hexval a + hexval b \<longrightarrow>
          decode_match a b = [37, a, b]
          \<and> replace_escapes (xs @ [37, a, b] @ ys)
              = replace_escapes xs @ [37, a, b] @ replace_escapes ys
          \<and> js_includes (sanitizeHeaderValue (xs @ [37, a, b] @ ys)) [37, a, b])"
proof -
  have n: "decodeURIComponent a b = None \<longleftrightarrow> 128 \<le> 16 * hexval a + hexval b"
    by (auto simp: decodeURIComponent_def Let_def)
  have l: "16 * hexval a + hexval b < 128 \<longrightarrow> decode_match a b = [16 * hexval a + hexval b]"
    by (simp add: decode_match_def decodeURIComponent_def Let_def)
  have h: "128 \<le> 16 * hexval a + hexval b \<longrightarrow>
          decode_match a b = [37, a, b]
          \<and> replace_escapes (xs @ [37, a, b] @ ys)
              = replace_escapes xs @ [37, a, b] @ replace_escapes ys
          \<and> js_includes (sanitizeHeaderValue (xs @ [37, a, b] @ ys)) [37, a, b]"
  proof
    assume "128 \<le> 16 * hexval a + hexval b"
    then have u: "decodeURIComponent a b = None" using n by simp
    have 1: "decode_match a b = [37, a, b]" using u by (simp add: decode_match_def)
    have 2: "replace_escapes (xs @ [37, a, b] @ ys)
              = replace_escapes xs @ [37, a, b] @ replace_escapes ys"
      using replace_escapes_around[OF assms u] by simp
    have "sublist [37, a, b] (xs @ [37, a, b] @ ys)" by (rule sublist_appendI)
    then have "sublist [37, a, b] (decode_loop 0 (xs @ [37, a, b] @ ys))"
      by (rule sublist_decode_loop[OF assms u])
    then have d: "sublist [37, a, b] (decode_loop 0 (xs @ [37, a, b] @ ys))" .
    have ep: "list_all (\<lambda>c. \<not> is_space c \<and> \<not> is_crlf c \<and> c \<le> 255) [37, a, b]"
      using escape_plain[OF assms] by blast
    have ne: "[37, a, b] \<noteq> []" by simp
    from ne ep d
    have "sublist [37, a, b] (clean_whitespace (decode_loop 0 (xs @ [37, a, b] @ ys)))"
      by (rule sublist_clean_whitespace_fwd)
    then have 3: "js_includes (sanitizeHeaderValue (xs @ [37, a, b] @ ys)) [37, a, b]"
      by (simp add: js_includes_def sanitizeHeaderValue_def)
    show "decode_match a b = [37, a, b]
          \<and> replace_escapes (xs @ [37, a, b] @ ys)
              = replace_escapes xs @ [37, a, b] @ replace_escapes ys
          \<and> js_includes (sanitizeHeaderValue (xs @ [37, a, b] @ ys)) [37, a, b]"
      using 1 2 3 by blast
  qed
  show ?thesis using n l h by blast
qed


lemma sanitize_cafe: "sanitizeHeaderValue (js ''caf%C3%A9 %41'') = js ''caf%C3%A9 A''"
  by (simp add: js_def sanitizeHeaderValue_def decode_loop.simps decode_match_def
      decodeURIComponent_def is_hex_def is_digit_def hexval_def clean_whitespace_def
      is_crlf_def is_space_def trim_def strip_ends_def)

theorem undecodable_escape_kept_witness:
  "is_hex 67 \<and> is_hex 51 \<and> is_hex 52 \<and> is_hex 49
   \<and> decodeURIComponent 67 51 = None
   \<and> decode_match 67 51 = js ''%C3''
   \<and> decode_match 52 49 = js ''A''
   \<and> js_includes (sanitizeHeaderValue (js ''caf%C3%A9 %41'')) (js ''%C3'')
   \<and> sanitizeHeaderValue (js ''caf%C3%A9 %41'') = js ''caf%C3%A9 A''"
proof -
  have hx: "is_hex 67" "is_hex 51" "is_hex 52" "is_hex 49"
    by (simp_all add: is_hex_def is_digit_def)
  have v: "(128::nat) \<le> 16 * hexval 67 + hexval 51" "16 * hexval 52 + hexval 49 = 65"
    by (simp_all add: hexval_def is_digit_def)
  have s: "js ''caf%C3%A9 %41'' = js ''caf'' @ [37, 67, 51] @ js ''%A9 %41''"
    "js ''%C3'' = [37, 67, 51]" "js ''A'' = [65]"
    by (simp_all add: js_def)
  note t = undecodable_escape_kept [OF hx(1,2), of "js ''caf''" "js ''%A9 %41''"]
  note t2 = undecodable_escape_kept [OF hx(3,4), of "[]" "[]"]
  have 1: "decodeURIComponent 67 51 = None" using t v(1) by blast
  have 2: "decode_match 67 51 = js ''%C3''" unfolding s using t v(1) by blast
  have 3: "decode_match 52 49 = js ''A''" unfolding s using t2 v(2) by simp
  have 4: "js_includes (sanitizeHeaderValue (js ''caf%C3%A9 %41'')) (js ''%C3'')"
    unfolding s using t v(1) by blast
  show ?thesis using hx 1 2 3 4 sanitize_cafe by blast
qed


section \<open>Idempotence of the sanitizer: claim C3\<close>

lemma length_decode_match: "length (decode_match a b) \<le> 3"
  by (simp add: decode_match_def split: option.split)
     (auto simp: decodeURIComponent_def Let_def split: if_splits)

lemma length_replace_escapes: "length (replace_escapes s) \<le> length s"
proof (induction s rule: replace_escapes.induct)
  case (1 p a b rest)
  then show ?case using length_decode_match[of a b] by auto
qed simp_all

lemma decodable_short: "length s < 3 \<Longrightarrow> \<not> decodable s"
  unfolding decodable_def using sublist_length_le by fastforce

lemma decodable_Cons: "decodable s \<Longrightarrow> decodable (c # s)"
  unfolding decodable_def by (meson sublist_Cons_right)

lemma decodable_Cons_iff:
  "\<not> (p = 37 \<and> is_hex a \<and> is_hex b \<and> decodeURIComponent a b \<noteq> None) \<Longrightarrow>
     decodable (p # a # b # rest) \<longleftrightarrow> decodable (a # b # rest)"
  unfolding decodable_def by (auto simp: sublist_Cons_right[of _ p])

lemma decodable_skip:
  "c \<noteq> 37 \<Longrightarrow> decodable (c # s) \<longleftrightarrow> decodable s"
  unfolding decodable_def by (auto simp: sublist_Cons_right[of _ c])

lemma replace_escapes_fixed_iff: "replace_escapes s = s \<longleftrightarrow> \<not> decodable s"
proof (induction s rule: replace_escapes.induct)
  case (1 p a b rest)
  show ?case
  proof (cases "p = 37 \<and> is_hex a \<and> is_hex b")
    case esc: True
    show ?thesis
    proof (cases "decodeURIComponent a b")
      case None
      then have "replace_escapes (p # a # b # rest) = p # a # b # replace_escapes rest"
        using esc by (simp add: decode_match_def)
      moreover have "decodable (p # a # b # rest) \<longleftrightarrow> decodable rest"
        using esc None hex_plain[of a] hex_plain[of b]
        by (simp add: decodable_Cons_iff decodable_skip)
      ultimately show ?thesis using 1 esc by simp
    next
      case (Some d)
      then have "length d = 1" by (auto simp: decodeURIComponent_def Let_def split: if_splits)
      then have "length (replace_escapes (p # a # b # rest)) < length (p # a # b # rest)"
        using esc Some length_replace_escapes[of rest] by (simp add: decode_match_def)
      then have "replace_escapes (p # a # b # rest) \<noteq> p # a # b # rest"
        by (metis less_irrefl)
      moreover have "decodable (p # a # b # rest)"
        unfolding decodable_def using esc Some
        by (intro exI[of _ a] exI[of _ b]) (simp add: sublist_Cons_right)
      ultimately show ?thesis by simp
    qed
  next
    case False
    then have "replace_escapes (p # a # b # rest) = p # replace_escapes (a # b # rest)"
      by auto
    moreover have "decodable (p # a # b # rest) \<longleftrightarrow> decodable (a # b # rest)"
      using False by (intro decodable_Cons_iff) auto
    ultimately show ?thesis using 1 False by auto
  qed
qed (simp_all add: decodable_short)

lemma decodable_clean_whitespace: "decodable (clean_whitespace s) \<Longrightarrow> decodable s"
proof -
  assume "decodable (clean_whitespace s)"
  then obtain a b where h: "is_hex a" "is_hex b" "decodeURIComponent a b \<noteq> None"
    and sub: "sublist [37, a, b] (clean_whitespace s)"
    unfolding decodable_def by blast
  have ne: "[37, a, b] \<noteq> []" by simp
  have ns: "32 \<notin> set [37, a, b]" using escape_plain[OF h(1,2)] by blast
  from ne ns sub have "sublist [37, a, b] s" by (rule sublist_clean_whitespace_back)
  then show "decodable s" unfolding decodable_def using h by blast
qed

lemma decode_loop_fixed: "replace_escapes s = s \<Longrightarrow> decode_loop n s = s"
  by (subst decode_loop.simps) (simp add: Let_def)


text \<open>The shape of what steps 2 to 4 return, and that they leave such a string alone.\<close>

lemma list_all_replace_runs_keep:
  "list_all Q r \<Longrightarrow> list_all Q xs \<Longrightarrow> list_all Q (replace_runs C r xs)"
proof (induction C r xs rule: replace_runs.induct)
  case (1 C r)
  then show ?case by simp
next
  case (2 C r x xs)
  have "list_all Q (dropWhile C xs)"
    using "2.prems"(2) by (auto simp: list_all_iff dest: set_dropWhileD)
  then show ?case using 2 by auto
qed

lemma replace_runs_id: "list_all (\<lambda>c. \<not> C c) t \<Longrightarrow> replace_runs C r t = t"
  using replace_runs_plain[of C t r "[]"] by simp

lemma replace_runs_single:
  "C h \<Longrightarrow> list_all (\<lambda>c. C c \<longrightarrow> c = h) t \<Longrightarrow> \<not> sublist [h, h] t \<Longrightarrow>
     replace_runs C [h] t = t"
proof (induction C "[h]" t rule: replace_runs.induct)
  case (1 C)
  then show ?case by simp
next
  case (2 C x xs)
  have tl: "\<not> sublist [h, h] xs" using "2.prems"(3) by (simp add: sublist_Cons_right)
  show ?case
  proof (cases "C x")
    case True
    then have x: "x = h" using "2.prems"(2) by simp
    have "xs = [] \<or> \<not> C (hd xs)"
    proof (cases xs)
      case Nil
      then show ?thesis by simp
    next
      case (Cons y ys)
      then have "y \<noteq> h" using "2.prems"(3) x by (auto simp: sublist_Cons_right)
      then show ?thesis using "2.prems"(2) Cons by auto
    qed
    then have d: "dropWhile C xs = xs" by (rule dropWhile_none)
    then have "replace_runs C [h] (dropWhile C xs) = xs"
      using "2.hyps"(1)[OF True] "2.prems"(1,2) tl by simp
    then show ?thesis using True x by simp
  next
    case False
    then show ?thesis using 2 tl by simp
  qed
qed

lemma strip_ends_id:
  "t = [] \<or> (\<not> C (hd t) \<and> \<not> C (last t)) \<Longrightarrow> strip_ends C t = t"
proof (cases t rule: rev_cases)
  case Nil
  then show ?thesis by (simp add: strip_ends_def)
next
  case (snoc ys y)
  assume "t = [] \<or> (\<not> C (hd t) \<and> \<not> C (last t))"
  then have h: "\<not> C (hd t)" and l: "\<not> C y" using snoc by auto
  have "dropWhile C t = t" using h snoc by (intro dropWhile_none) simp
  then show ?thesis using l snoc by (simp add: strip_ends_def)
qed

lemma space_is_space: "is_space 32"
  by (simp add: is_space_def)

lemma crlf_is_space: "is_crlf c \<Longrightarrow> is_space c \<and> c \<noteq> 32"
  by (auto simp: is_crlf_def is_space_def)

lemma clean_whitespace_shape:
  "list_all (\<lambda>c. c \<le> 255) (clean_whitespace s)
   \<and> list_all (\<lambda>c. is_space c \<longrightarrow> c = 32) (clean_whitespace s)
   \<and> \<not> sublist [32, 32] (clean_whitespace s)
   \<and> (clean_whitespace s = []
        \<or> (\<not> is_space (hd (clean_whitespace s)) \<and> \<not> is_space (last (clean_whitespace s))))"
proof -
  let ?s2 = "map (\<lambda>c. if 255 < c then 32 else c) (replace_runs is_crlf [32] s)"
  let ?s3 = "replace_runs is_space [32] ?s2"
  have t: "clean_whitespace s = strip_ends is_space ?s3"
    by (simp add: clean_whitespace_def trim_def js_space)
  have sub: "set (clean_whitespace s) \<subseteq> set ?s3"
    unfolding t by (rule set_strip_ends)
  have "list_all (\<lambda>c. c \<le> 255) ?s2" by (auto simp: list_all_iff)
  then have "list_all (\<lambda>c. c \<le> 255) ?s3"
    by (intro list_all_replace_runs_keep) simp_all
  then have a: "list_all (\<lambda>c. c \<le> 255) (clean_whitespace s)"
    using sub by (auto simp: list_all_iff)
  have "list_all (\<lambda>c. is_space c \<longrightarrow> c = 32) ?s3"
    by (rule list_all_replace_runs) simp_all
  then have b: "list_all (\<lambda>c. is_space c \<longrightarrow> c = 32) (clean_whitespace s)"
    using sub by (auto simp: list_all_iff)
  have c: "\<not> sublist [32, 32] (clean_whitespace s)"
  proof
    assume "sublist [32, 32] (clean_whitespace s)"
    moreover have "sublist (clean_whitespace s) ?s3" unfolding t by (rule sublist_strip_ends)
    ultimately have "sublist [32, 32] ?s3" by (rule sublist_order.order_trans)
    moreover have "\<not> sublist [32, 32] ?s3"
      by (rule replace_runs_no_double) (rule space_is_space)
    ultimately show False by blast
  qed
  have d: "clean_whitespace s = []
        \<or> (\<not> is_space (hd (clean_whitespace s)) \<and> \<not> is_space (last (clean_whitespace s)))"
    unfolding t using strip_ends_hd[of is_space ?s3] strip_ends_last[of is_space ?s3] by blast
  show ?thesis using a b c d by blast
qed

lemma clean_whitespace_idem: "clean_whitespace (clean_whitespace s) = clean_whitespace s"
proof -
  let ?t = "clean_whitespace s"
  note sh = clean_whitespace_shape[of s]
  have "list_all (\<lambda>c. \<not> is_crlf c) ?t"
    using sh crlf_is_space by (auto simp: list_all_iff)
  then have 1: "replace_runs is_crlf [32] ?t = ?t" by (rule replace_runs_id)
  have 2: "map (\<lambda>c. if 255 < c then 32 else c) ?t = ?t"
    using sh by (intro map_idI) (auto simp: list_all_iff)
  have 3: "replace_runs is_space [32] ?t = ?t"
    using space_is_space sh by (intro replace_runs_single) blast+
  have 4: "strip_ends is_space ?t = ?t"
    using sh by (intro strip_ends_id) blast
  show ?thesis
    by (subst (1) clean_whitespace_def) (simp add: js_space trim_def 1 2 3 4)
qed

text \<open>
  Claim C3 as stated fails for an input nested more deeply than the five passes: with six
  layers, five passes leave \<open>%41\<close>, and sanitizing that output again decodes it to \<open>A\<close>.
\<close>

theorem sanitizeHeaderValue_counterexample:
  "sanitizeHeaderValue (js ''%252525252541'') = js ''%41''
   \<and> sanitizeHeaderValue (sanitizeHeaderValue (js ''%252525252541'')) = js ''A''
   \<and> sanitizeHeaderValue (sanitizeHeaderValue (js ''%252525252541''))
       \<noteq> sanitizeHeaderValue (js ''%252525252541'')"
proof -
  have a: "sanitizeHeaderValue (js ''%252525252541'') = js ''%41''"
    by (simp add: js_def sanitizeHeaderValue_def decode_loop.simps decode_match_def
      decodeURIComponent_def is_hex_def is_digit_def hexval_def clean_whitespace_def
      is_crlf_def is_space_def trim_def strip_ends_def)
  have b: "sanitizeHeaderValue (js ''%41'') = js ''A''"
    by (simp add: js_def sanitizeHeaderValue_def decode_loop.simps decode_match_def
      decodeURIComponent_def is_hex_def is_digit_def hexval_def clean_whitespace_def
      is_crlf_def is_space_def trim_def strip_ends_def)
  have c: "js ''A'' \<noteq> js ''%41''" by (simp add: js_def)
  show ?thesis unfolding a b using c by simp
qed

text \<open>
  Claim C3 as amended. The sanitizer is idempotent on every input whose nested encoding
  the decode loop resolves within its five passes, that is, where one more pass would not
  change the result of the loop.
\<close>

theorem sanitizeHeaderValue_idempotent:
  assumes "replace_escapes (decode_loop 0 x) = decode_loop 0 x"
  shows "sanitizeHeaderValue (sanitizeHeaderValue x) = sanitizeHeaderValue x"
proof (cases "x = [] \<or> clean_whitespace (decode_loop 0 x) = []")
  case True
  then show ?thesis by (auto simp: sanitizeHeaderValue_def)
next
  case False
  let ?t = "clean_whitespace (decode_loop 0 x)"
  have "\<not> decodable (decode_loop 0 x)" using assms by (simp add: replace_escapes_fixed_iff)
  then have "\<not> decodable ?t" using decodable_clean_whitespace by blast
  then have "replace_escapes ?t = ?t" by (simp add: replace_escapes_fixed_iff)
  then have "decode_loop 0 ?t = ?t" by (rule decode_loop_fixed)
  then show ?thesis using False by (simp add: sanitizeHeaderValue_def clean_whitespace_idem)
qed

lemma sanitize_nested: "decode_loop 0 (js ''a%2520b'') = js ''a b''"
  by (simp add: js_def decode_loop.simps decode_match_def decodeURIComponent_def is_hex_def
      is_digit_def hexval_def)

theorem sanitizeHeaderValue_idempotent_witness:
  "replace_escapes (decode_loop 0 (js ''a%2520b'')) = decode_loop 0 (js ''a%2520b'')
   \<and> sanitizeHeaderValue (js ''a%2520b'') = js ''a b''
   \<and> sanitizeHeaderValue (sanitizeHeaderValue (js ''a%2520b'')) = js ''a b''"
proof -
  have h: "replace_escapes (decode_loop 0 (js ''a%2520b'')) = decode_loop 0 (js ''a%2520b'')"
    unfolding sanitize_nested by (simp add: js_def)
  have v: "sanitizeHeaderValue (js ''a%2520b'') = js ''a b''"
    by (simp add: sanitizeHeaderValue_def sanitize_nested)
       (simp add: js_def clean_whitespace_def is_crlf_def is_space_def trim_def strip_ends_def)
  show ?thesis
    using sanitizeHeaderValue_idempotent [OF h] h v by simp
qed

end
